theory Spec2Isabelle
  imports Complex_Main "HOL-Library.Word"
begin

section \<open>JavaScript strings\<close>

text \<open>
  A JavaScript string is a sequence of UTF-16 code units; \<open>s.length\<close>, \<open>s.charCodeAt(i)\<close>,
  \<open>s.trim()\<close> and the regular expressions of \<open>toonConverter.ts\<close> all work on code units.
  A code unit is a 16-bit word, a string a list of them. \<open>lit\<close> embeds an ASCII literal.
\<close>

type_synonym jschar = "16 word"
type_synonym jsstring = "jschar list"

definition lit :: "string \<Rightarrow> jsstring" where
  "lit s = map (\<lambda>c. of_nat (of_char c)) s"

abbreviation chTAB :: jschar where "chTAB \<equiv> 0x09"
abbreviation chLF :: jschar where "chLF \<equiv> 0x0A"
abbreviation chCR :: jschar where "chCR \<equiv> 0x0D"
abbreviation chSP :: jschar where "chSP \<equiv> 0x20"
abbreviation chDQ :: jschar where "chDQ \<equiv> 0x22"
abbreviation chPLUS :: jschar where "chPLUS \<equiv> 0x2B"
abbreviation chCOMMA :: jschar where "chCOMMA \<equiv> 0x2C"
abbreviation chMINUS :: jschar where "chMINUS \<equiv> 0x2D"
abbreviation chDOT :: jschar where "chDOT \<equiv> 0x2E"
abbreviation chZERO :: jschar where "chZERO \<equiv> 0x30"
abbreviation chCOLON :: jschar where "chCOLON \<equiv> 0x3A"
abbreviation chUpperE :: jschar where "chUpperE \<equiv> 0x45"
abbreviation chBSL :: jschar where "chBSL \<equiv> 0x5C"
abbreviation chLowerE :: jschar where "chLowerE \<equiv> 0x65"
abbreviation chLowerN :: jschar where "chLowerN \<equiv> 0x6E"
abbreviation chLowerR :: jschar where "chLowerR \<equiv> 0x72"
abbreviation chLowerT :: jschar where "chLowerT \<equiv> 0x74"

text \<open>
  The code units \<open>String.prototype.trim\<close> strips: ECMAScript's WhiteSpace (TAB, VT, FF,
  U+FEFF and the space separators) and LineTerminator (LF, CR, U+2028, U+2029).
\<close>

definition isLineTerminator :: "jschar \<Rightarrow> bool" where
  "isLineTerminator c = (c = chLF \<or> c = chCR \<or> c = 0x2028 \<or> c = 0x2029)"

definition isWhiteSpace :: "jschar \<Rightarrow> bool" where
  "isWhiteSpace c =
     (c = chTAB \<or> c = 0x0B \<or> c = 0x0C \<or> c = chSP \<or> c = 0xA0 \<or> c = 0x1680
      \<or> (0x2000 \<le> c \<and> c \<le> 0x200A) \<or> c = 0x202F \<or> c = 0x205F \<or> c = 0x3000
      \<or> c = 0xFEFF \<or> isLineTerminator c)"

definition trim :: "jsstring \<Rightarrow> jsstring" where
  "trim s = rev (dropWhile isWhiteSpace (rev (dropWhile isWhiteSpace s)))"

text \<open>\<open>s.startsWith(p)\<close> and \<open>s.includes(p)\<close>.\<close>

fun startsWith :: "jsstring \<Rightarrow> jsstring \<Rightarrow> bool" where
  "startsWith s [] = True"
| "startsWith [] (p # ps) = False"
| "startsWith (c # cs) (p # ps) = (c = p \<and> startsWith cs ps)"

fun includesStr :: "jsstring \<Rightarrow> jsstring \<Rightarrow> bool" where
  "includesStr [] p = (p = [])"
| "includesStr (c # cs) p = (startsWith (c # cs) p \<or> includesStr cs p)"

text \<open>\<open>parts.join(sep)\<close> and \<open>s.repeat(n)\<close>.\<close>

fun join :: "jsstring \<Rightarrow> jsstring list \<Rightarrow> jsstring" where
  "join sep [] = []"
| "join sep [x] = x"
| "join sep (x # y # ys) = x @ sep @ join sep (y # ys)"

definition repeat :: "jsstring \<Rightarrow> nat \<Rightarrow> jsstring" where
  "repeat s n = concat (replicate n s)"

text \<open>
  \<open>s.replace(/c/g, r)\<close> for a pattern that is one literal code unit: every occurrence of
  \<open>c\<close> becomes \<open>r\<close>.
\<close>

definition replaceAll :: "jschar \<Rightarrow> jsstring \<Rightarrow> jsstring \<Rightarrow> jsstring" where
  "replaceAll c r s = concat (map (\<lambda>x. if x = c then r else [x]) s)"

section \<open>String quoting\<close>

definition isDigit :: "jschar \<Rightarrow> bool" where
  "isDigit c = (0x30 \<le> c \<and> c \<le> 0x39)"

text \<open>
  \<open>looksLikeNumber\<close> tests \<^verbatim>\<open>/^-?(0|[1-9]\d*)(\.\d+)?([eE][+-]?\d+)?$/\<close>. Each group is a
  function from the text still to be matched to what is left after the group, \<open>None\<close> when
  the group cannot match there. The pattern is unambiguous (what follows a run of digits is
  never a digit), so the greedy match is the only one.
\<close>

definition matchMinus :: "jsstring \<Rightarrow> jsstring" where
  "matchMinus s = (case s of c # cs \<Rightarrow> if c = chMINUS then cs else s | [] \<Rightarrow> s)"

definition matchInt :: "jsstring \<Rightarrow> jsstring option" where
  "matchInt s =
     (case s of
        [] \<Rightarrow> None
      | c # cs \<Rightarrow>
          if c = chZERO then Some cs
          else if isDigit c then Some (dropWhile isDigit cs)
          else None)"

definition matchDigits1 :: "jsstring \<Rightarrow> jsstring option" where
  "matchDigits1 s =
     (case s of
        [] \<Rightarrow> None
      | c # cs \<Rightarrow> if isDigit c then Some (dropWhile isDigit cs) else None)"

definition matchFrac :: "jsstring \<Rightarrow> jsstring option" where
  "matchFrac s =
     (case s of
        [] \<Rightarrow> Some []
      | c # cs \<Rightarrow> if c = chDOT then matchDigits1 cs else Some s)"

definition matchExp :: "jsstring \<Rightarrow> jsstring option" where
  "matchExp s =
     (case s of
        [] \<Rightarrow> Some []
      | c # cs \<Rightarrow>
          if c = chLowerE \<or> c = chUpperE then
            (case cs of
               [] \<Rightarrow> None
             | d # ds \<Rightarrow> if d = chPLUS \<or> d = chMINUS then matchDigits1 ds else matchDigits1 cs)
          else Some s)"

definition looksLikeNumber :: "jsstring \<Rightarrow> bool" where
  "looksLikeNumber s =
     (case matchInt (matchMinus s) of
        None \<Rightarrow> False
      | Some r1 \<Rightarrow>
          (case matchFrac r1 of
             None \<Rightarrow> False
           | Some r2 \<Rightarrow>
               (case matchExp r2 of
                  None \<Rightarrow> False
                | Some r3 \<Rightarrow> r3 = [])))"

definition needsQuotes :: "jsstring \<Rightarrow> jsstring \<Rightarrow> bool" where
  "needsQuotes s delimiter =
     (if length s = 0 then True
      else if s \<noteq> trim s then True
      else if s = lit ''true'' \<or> s = lit ''false'' \<or> s = lit ''null'' then True
      else if looksLikeNumber s then True
      else if s = lit ''-'' \<or> startsWith s (lit ''-'') then True
      else if list_ex (\<lambda>c. c < 0x20) s then True
      else if includesStr s [chDQ] \<or> includesStr s [chBSL] then True
      else if includesStr s [chCOLON] then True
      else if includesStr s delimiter then True
      else if includesStr s [chCOMMA] \<or> includesStr s [chTAB] then True
      else False)"

definition escapeQuoted :: "jsstring \<Rightarrow> jsstring" where
  "escapeQuoted s =
     replaceAll chTAB [chBSL, chLowerT]
       (replaceAll chCR [chBSL, chLowerR]
          (replaceAll chLF [chBSL, chLowerN]
             (replaceAll chDQ [chBSL, chDQ]
                (replaceAll chBSL [chBSL, chBSL] s))))"

definition encodeString :: "jsstring \<Rightarrow> jsstring \<Rightarrow> jsstring" where
  "encodeString s delimiter =
     (if needsQuotes s delimiter then [chDQ] @ escapeQuoted s @ [chDQ] else s)"

definition encodeKey :: "jsstring \<Rightarrow> jsstring \<Rightarrow> jsstring" where
  "encodeKey k delimiter = encodeString k delimiter"

section \<open>Numbers\<close>

text \<open>
  A JavaScript number is an IEEE double. The encoder never computes with one: it tests
  \<open>Number.isFinite\<close> and \<open>Object.is(n, -0)\<close> and reads the digits of \<open>String(n)\<close>. ECMAScript
  defines \<open>String(n)\<close> for a finite non-zero \<open>n\<close> from the integers \<open>k\<close>, \<open>s\<close>, \<open>n\<close> with
  \<open>k \<ge> 1\<close> as small as possible, \<open>10 ^ (k - 1) \<le> s < 10 ^ k\<close> and \<open>s * 10 ^ (n - k)\<close> the
  number's value. \<open>Decimal neg ds n\<close> is the number whose sign is \<open>neg\<close>, whose \<open>s\<close> has the
  decimal digits \<open>ds\<close> (most significant first, \<open>k = length ds\<close>) and whose exponent is \<open>n\<close>:
  its value is \<open>0.d\<^sub>1\<dots>d\<^sub>k * 10 ^ n\<close>. Every finite non-zero double is one such triple.
\<close>

datatype jsnumber =
    NaN
  | PosInfinity
  | NegInfinity
  | PosZero
  | NegZero
  | Decimal bool "nat list" int

text \<open>The digit lists ECMAScript's \<open>k\<close>, \<open>s\<close> can have: no leading and no trailing zero.\<close>

fun wf_number :: "jsnumber \<Rightarrow> bool" where
  "wf_number (Decimal neg ds n) =
     (ds \<noteq> [] \<and> list_all (\<lambda>d. d < 10) ds \<and> hd ds \<noteq> 0 \<and> last ds \<noteq> 0)"
| "wf_number _ = True"

fun isFinite :: "jsnumber \<Rightarrow> bool" where
  "isFinite NaN = False"
| "isFinite PosInfinity = False"
| "isFinite NegInfinity = False"
| "isFinite _ = True"

definition digitChar :: "nat \<Rightarrow> jschar" where
  "digitChar d = of_nat (48 + d)"

function natToString :: "nat \<Rightarrow> jsstring" where
  "natToString n =
     (if n < 10 then [digitChar n] else natToString (n div 10) @ [digitChar (n mod 10)])"
  by pat_completeness auto
termination
  by (relation "measure id") auto

declare natToString.simps [simp del]

text \<open>ECMAScript's Number::toString, radix 10, on the triple.\<close>

definition positiveToString :: "nat list \<Rightarrow> int \<Rightarrow> jsstring" where
  "positiveToString ds n =
     (let k = int (length ds); digs = map digitChar ds in
      if k \<le> n \<and> n \<le> 21 then digs @ replicate (nat (n - k)) chZERO
      else if 0 < n \<and> n \<le> 21 then take (nat n) digs @ [chDOT] @ drop (nat n) digs
      else if - 6 < n \<and> n \<le> 0 then [chZERO, chDOT] @ replicate (nat (- n)) chZERO @ digs
      else
        (let e = n - 1;
             es = (if e < 0 then [chMINUS] else [chPLUS]) @ natToString (nat \<bar>e\<bar>)
         in if k = 1 then digs @ [chLowerE] @ es
            else take 1 digs @ [chDOT] @ drop 1 digs @ [chLowerE] @ es))"

fun numberToString :: "jsnumber \<Rightarrow> jsstring" where
  "numberToString NaN = lit ''NaN''"
| "numberToString PosInfinity = lit ''Infinity''"
| "numberToString NegInfinity = lit ''-Infinity''"
| "numberToString PosZero = lit ''0''"
| "numberToString NegZero = lit ''0''"
| "numberToString (Decimal neg ds n) =
     (if neg then [chMINUS] else []) @ positiveToString ds n"

text \<open>
  \<^verbatim>\<open>s.replace(/(\.\d*?)0+$/, "$1")\<close>: at the first dot that is followed by digits only, up
  to the end of the string, the last of them a zero, the zeros at the end are dropped.
\<close>

fun stripFracZeros :: "jsstring \<Rightarrow> jsstring" where
  "stripFracZeros [] = []"
| "stripFracZeros (c # cs) =
     (if c = chDOT \<and> cs \<noteq> [] \<and> list_all isDigit cs \<and> last cs = chZERO
      then c # rev (dropWhile (\<lambda>x. x = chZERO) (rev cs))
      else c # stripFracZeros cs)"

text \<open>\<^verbatim>\<open>s.replace(/\.$/, "")\<close>.\<close>

definition dropTrailingDot :: "jsstring \<Rightarrow> jsstring" where
  "dropTrailingDot s = (if s \<noteq> [] \<and> last s = chDOT then butlast s else s)"

text \<open>
  \<^verbatim>\<open>out.replace(/^0+(?=\d)/, "")\<close>: the zeros at the start go when a digit follows them; when
  none does, the pattern backtracks and keeps the last zero.
\<close>

definition stripLeadingZeros :: "jsstring \<Rightarrow> jsstring" where
  "stripLeadingZeros s =
     (let z = takeWhile (\<lambda>x. x = chZERO) s; r = dropWhile (\<lambda>x. x = chZERO) s in
      if z = [] then s
      else if r \<noteq> [] \<and> isDigit (hd r) then r
      else if 2 \<le> length z then chZERO # r
      else s)"

text \<open>
  \<^verbatim>\<open>s.match(/^([+-]?)(\d+)(?:\.(\d+))?[eE]([+-]?\d+)$/)\<close>: the four groups, or \<open>None\<close> when
  the string has another form.
\<close>

definition matchSign :: "jsstring \<Rightarrow> jsstring \<times> jsstring" where
  "matchSign s =
     (case s of
        [] \<Rightarrow> ([], s)
      | c # cs \<Rightarrow> if c = chPLUS \<or> c = chMINUS then ([c], cs) else ([], s))"

definition matchFracGroup :: "jsstring \<Rightarrow> jsstring option \<times> jsstring" where
  "matchFracGroup s =
     (case s of
        [] \<Rightarrow> (None, s)
      | c # cs \<Rightarrow>
          if c = chDOT \<and> takeWhile isDigit cs \<noteq> []
          then (Some (takeWhile isDigit cs), dropWhile isDigit cs)
          else (None, s))"

definition matchExpForm ::
  "jsstring \<Rightarrow> (jsstring \<times> jsstring \<times> jsstring option \<times> jsstring) option" where
  "matchExpForm s =
     (let (sg, r0) = matchSign s;
          ip = takeWhile isDigit r0;
          r1 = dropWhile isDigit r0
      in if ip = [] then None
         else
           (let (fr, r2) = matchFracGroup r1 in
            case r2 of
              [] \<Rightarrow> None
            | c # cs \<Rightarrow>
                if c = chLowerE \<or> c = chUpperE then
                  (let (es, r3) = matchSign cs; ed = takeWhile isDigit r3 in
                   if ed \<noteq> [] \<and> dropWhile isDigit r3 = [] then Some (sg, ip, fr, es @ ed)
                   else None)
                else None))"

text \<open>
  \<open>parseInt(m[4], 10)\<close> on a string the pattern \<^verbatim>\<open>[+-]?\d+\<close> has matched. The exponent of
  a double has at most three digits, so the result is exact.
\<close>

definition digitsToNat :: "jsstring \<Rightarrow> nat" where
  "digitsToNat s = foldl (\<lambda>a c. 10 * a + (unat c - 48)) 0 s"

definition parseInt :: "jsstring \<Rightarrow> int" where
  "parseInt s =
     (case s of
        [] \<Rightarrow> 0
      | c # cs \<Rightarrow>
          if c = chMINUS then - int (digitsToNat cs)
          else if c = chPLUS then int (digitsToNat cs)
          else int (digitsToNat s))"

text \<open>The last lines of \<open>encodeNumberCanonical\<close>, from \<open>out\<close> to the returned string.\<close>

definition finishNumber :: "jsstring \<Rightarrow> jsstring \<Rightarrow> jsstring" where
  "finishNumber sign out0 =
     (let out1 = stripLeadingZeros out0;
          out2 = (if includesStr out1 [chDOT] then dropTrailingDot (stripFracZeros out1)
                  else out1)
      in sign @ out2)"

definition encodeNumberCanonical :: "jsnumber \<Rightarrow> jsstring" where
  "encodeNumberCanonical n =
     (if \<not> isFinite n then lit ''null''
      else if n = NegZero then lit ''0''
      else
        (let s = numberToString n in
         if \<not> list_ex (\<lambda>c. c = chLowerE \<or> c = chUpperE) s then
           (if includesStr s [chDOT] then dropTrailingDot (stripFracZeros s) else s)
         else
           (case matchExpForm s of
              None \<Rightarrow> numberToString n
            | Some (sg, intPart, fracOpt, expStr) \<Rightarrow>
                (let sign = (if sg = lit ''-'' then lit ''-'' else []);
                     fracPart = (case fracOpt of None \<Rightarrow> [] | Some f \<Rightarrow> f);
                     exp = parseInt expStr;
                     digits = intPart @ fracPart;
                     pos = int (length intPart);
                     newPos = pos + exp
                 in if newPos \<le> 0 then
                      (let stripped = dropWhile (\<lambda>x. x = chZERO) digits in
                       if length stripped = 0 then lit ''0''
                       else finishNumber sign
                              (lit ''0.'' @ repeat (lit ''0'') (nat (- newPos)) @ stripped))
                    else if int (length digits) \<le> newPos then
                      finishNumber sign
                        (digits @ repeat (lit ''0'') (nat (newPos - int (length digits))))
                    else
                      finishNumber sign
                        (take (nat newPos) digits @ lit ''.'' @ drop (nat newPos) digits)))))"

section \<open>Values\<close>

text \<open>
  The canonical value tree, TypeScript's \<open>Json\<close>. An object is the list of its own
  enumerable string-keyed properties in the order \<open>Object.keys\<close> gives them; the keys of a
  JavaScript object are distinct, which \<open>wf_json\<close> says of the model.
\<close>

datatype json =
    JNull
  | JBool bool
  | JNum jsnumber
  | JStr jsstring
  | JArr "json list"
  | JObj "(jsstring \<times> json) list"

fun wf_json :: "json \<Rightarrow> bool" where
  "wf_json (JArr xs) = list_all wf_json xs"
| "wf_json (JObj kvs) = (distinct (map fst kvs) \<and> list_all (\<lambda>kv. wf_json (snd kv)) kvs)"
| "wf_json _ = True"

text \<open>
  The values \<open>normalize\<close> can be given (\<open>unknown\<close> in the source), by the tests it makes:
  \<open>typeof\<close>, \<open>Array.isArray\<close>, \<open>instanceof Date\<close> and \<open>isPlainObject\<close>. Arrays are dense
  (\<open>map\<close> skips the holes of a sparse array), a plain object is its property list as for
  \<open>Json\<close>, reading a property has no effect, and no property is named \<open>__proto__\<close> (the
  assignment \<open>out[k] = ...\<close> would set the prototype of the result instead of a property). A
  \<open>Date\<close> carries what its \<open>toISOString()\<close> returns, \<open>None\<close> for an invalid date, where
  \<open>toISOString\<close> throws a RangeError. \<open>HOther\<close> is any other object (a class instance, a
  boxed primitive, a Map); it carries what \<open>String(input)\<close> returns, \<open>None\<close> when that
  conversion throws a TypeError.
\<close>

datatype hostval =
    HNull
  | HUndefined
  | HBool bool
  | HNum jsnumber
  | HStr jsstring
  | HBigInt int
  | HFunction
  | HSymbol
  | HDate "jsstring option"
  | HArray "hostval list"
  | HPlain "(jsstring \<times> hostval) list"
  | HOther "jsstring option"

text \<open>
  What the source throws: \<open>new Error(message)\<close> from strict normalization (the spec's
  InvalidValueError), and the errors of the two built-in conversions.
\<close>

datatype error = Error jsstring | RangeError | TypeError

fun typeof :: "hostval \<Rightarrow> jsstring" where
  "typeof HNull = lit ''object''"
| "typeof HUndefined = lit ''undefined''"
| "typeof (HBool b) = lit ''boolean''"
| "typeof (HNum n) = lit ''number''"
| "typeof (HStr s) = lit ''string''"
| "typeof (HBigInt i) = lit ''bigint''"
| "typeof HFunction = lit ''function''"
| "typeof HSymbol = lit ''symbol''"
| "typeof (HDate d) = lit ''object''"
| "typeof (HArray xs) = lit ''object''"
| "typeof (HPlain kvs) = lit ''object''"
| "typeof (HOther s) = lit ''object''"

definition intToString :: "int \<Rightarrow> jsstring" where
  "intToString i = (if i < 0 then [chMINUS] @ natToString (nat (- i)) else natToString (nat i))"

text \<open>
  \<open>input.map(f)\<close> and the \<open>for\<close> loop over the keys call \<open>normalize\<close> from left to right
  and stop at the first call that throws.
\<close>

fun sequence :: "(error + 'a) list \<Rightarrow> error + 'a list" where
  "sequence [] = Inr []"
| "sequence (x # xs) =
     (case x of
        Inl e \<Rightarrow> Inl e
      | Inr v \<Rightarrow> (case sequence xs of Inl e \<Rightarrow> Inl e | Inr vs \<Rightarrow> Inr (v # vs)))"

fun normalize :: "hostval \<Rightarrow> bool \<Rightarrow> error + json" where
  "normalize HNull sanitizeJs = Inr JNull"
| "normalize (HBool b) sanitizeJs = Inr (JBool b)"
| "normalize (HStr s) sanitizeJs = Inr (JStr s)"
| "normalize (HNum n) sanitizeJs =
     (if \<not> sanitizeJs then
        (if \<not> isFinite n then Inl (Error (lit ''Non-finite number in strict mode''))
         else Inr (JNum (if n = NegZero then PosZero else n)))
      else
        (if \<not> isFinite n then Inr JNull
         else Inr (JNum (if n = NegZero then PosZero else n))))"
| "normalize (HArray xs) sanitizeJs =
     (if \<not> sanitizeJs then
        (case sequence (map (\<lambda>x. normalize x False) xs) of
           Inl e \<Rightarrow> Inl e
         | Inr ys \<Rightarrow> Inr (JArr ys))
      else
        (case sequence (map (\<lambda>x. if x = HUndefined then Inr JNull else normalize x True) xs) of
           Inl e \<Rightarrow> Inl e
         | Inr ys \<Rightarrow> Inr (JArr ys)))"
| "normalize (HPlain kvs) sanitizeJs =
     (if \<not> sanitizeJs then
        (case sequence
                (map (\<lambda>(k, v). case normalize v False of
                                 Inl e \<Rightarrow> Inl e
                               | Inr w \<Rightarrow> Inr (k, w)) kvs) of
           Inl e \<Rightarrow> Inl e
         | Inr out \<Rightarrow> Inr (JObj out))
      else
        (case sequence
                (map (\<lambda>(k, v). case normalize v True of
                                 Inl e \<Rightarrow> Inl e
                               | Inr w \<Rightarrow> Inr (k, w))
                   (filter (\<lambda>(k, v). v \<noteq> HUndefined) kvs)) of
           Inl e \<Rightarrow> Inl e
         | Inr out \<Rightarrow> Inr (JObj out)))"
| "normalize (HBigInt i) sanitizeJs =
     (if \<not> sanitizeJs
      then Inl (Error (lit ''Non-JSON type in strict mode: '' @ typeof (HBigInt i)))
      else Inr (JStr (intToString i)))"
| "normalize (HDate d) sanitizeJs =
     (if \<not> sanitizeJs
      then Inl (Error (lit ''Non-JSON type in strict mode: '' @ typeof (HDate d)))
      else (case d of None \<Rightarrow> Inl RangeError | Some isoString \<Rightarrow> Inr (JStr isoString)))"
| "normalize (HOther str) sanitizeJs =
     (if \<not> sanitizeJs
      then Inl (Error (lit ''Non-JSON type in strict mode: '' @ typeof (HOther str)))
      else (case str of None \<Rightarrow> Inl TypeError | Some s \<Rightarrow> Inr (JStr s)))"
| "normalize v sanitizeJs =
     (if \<not> sanitizeJs
      then Inl (Error (lit ''Non-JSON type in strict mode: '' @ typeof v))
      else Inr JNull)"

section \<open>The encoder\<close>

fun isPrimitive :: "json \<Rightarrow> bool" where
  "isPrimitive (JArr xs) = False"
| "isPrimitive (JObj kvs) = False"
| "isPrimitive _ = True"

text \<open>\<open>isPlainObject\<close> on a canonical value: an array's prototype is \<open>Array.prototype\<close>.\<close>

fun isPlainObject :: "json \<Rightarrow> bool" where
  "isPlainObject (JObj kvs) = True"
| "isPlainObject _ = False"

text \<open>
  \<open>encodePrimitive\<close> has the parameter type \<open>Primitive\<close>, which has no array and no
  object: there is no equation for them, and every call stands behind \<open>isPrimitive\<close>.
\<close>

fun encodePrimitive :: "json \<Rightarrow> jsstring \<Rightarrow> jsstring" where
  "encodePrimitive JNull d = lit ''null''"
| "encodePrimitive (JBool b) d = (if b then lit ''true'' else lit ''false'')"
| "encodePrimitive (JNum n) d = encodeNumberCanonical n"
| "encodePrimitive (JStr s) d = encodeString s d"

definition indentStr :: "nat \<Rightarrow> nat \<Rightarrow> jsstring" where
  "indentStr level indentSize = repeat (lit '' '') (level * indentSize)"

fun chooseDelimiterForValues :: "json list \<Rightarrow> jsstring" where
  "chooseDelimiterForValues [] = lit '',''"
| "chooseDelimiterForValues (v # vs) =
     (case v of
        JStr s \<Rightarrow> if includesStr s (lit '','') then [chTAB] else chooseDelimiterForValues vs
      | _ \<Rightarrow> chooseDelimiterForValues vs)"

text \<open>
  \<open>sameKeySet\<close> returns \<open>{ ok, keys }\<close>, here the pair \<open>(ok, keys)\<close>; an object is given by
  its property list, \<open>Object.keys\<close> is \<open>map fst\<close> and \<open>set0.has(k)\<close> is membership.
\<close>

fun sameKeySetLoop ::
  "jsstring list \<Rightarrow> (jsstring \<times> json) list list \<Rightarrow> bool \<times> jsstring list" where
  "sameKeySetLoop keys0 [] = (True, keys0)"
| "sameKeySetLoop keys0 (obj # objs) =
     (let ki = map fst obj in
      if length ki \<noteq> length keys0 then (False, [])
      else if \<not> list_all (\<lambda>k. k \<in> set keys0) ki then (False, [])
      else sameKeySetLoop keys0 objs)"

definition sameKeySet :: "(jsstring \<times> json) list list \<Rightarrow> bool \<times> jsstring list" where
  "sameKeySet objs =
     (case objs of
        [] \<Rightarrow> (True, [])
      | obj0 # rest \<Rightarrow> sameKeySetLoop (map fst obj0) rest)"

text \<open>
  \<open>o[k]\<close>: the value of the own property \<open>k\<close>, \<open>None\<close> for \<open>undefined\<close> when the object has
  no such property. \<open>isPrimitive(o[k])\<close> is false for \<open>undefined\<close>.
\<close>

definition getProp :: "(jsstring \<times> json) list \<Rightarrow> jsstring \<Rightarrow> json option" where
  "getProp obj k = map_of obj k"

definition isPrimitiveProp :: "json option \<Rightarrow> bool" where
  "isPrimitiveProp p = (case p of None \<Rightarrow> False | Some v \<Rightarrow> isPrimitive v)"

text \<open>
  \<open>o[k]\<close> where the source reads it as a cell, after \<open>primitiveValuesOnly\<close> has held: the
  property is there, and the \<open>None\<close> case is never evaluated on that path.
\<close>

definition getCell :: "(jsstring \<times> json) list \<Rightarrow> jsstring \<Rightarrow> json" where
  "getCell obj k = (case getProp obj k of None \<Rightarrow> JNull | Some v \<Rightarrow> v)"

text \<open>The cast of \<open>arr\<close> to an array of objects, made after \<open>allObjects\<close> has held.\<close>

definition objFields :: "json \<Rightarrow> (jsstring \<times> json) list" where
  "objFields v = (case v of JObj kvs \<Rightarrow> kvs | _ \<Rightarrow> [])"

datatype ArrayKind = KInline | KTabular | KList

record EncodedArray =
  kind :: ArrayKind
  header :: jsstring
  body :: jsstring
  delimiter :: jsstring
  tabularFields :: "jsstring list option"

record Ctx =
  indent :: nat

text \<open>
  The tabular attempt of \<open>encodeArray\<close> (the block under \<open>allObjects\<close>): \<open>None\<close> where the
  source falls through to the list layout.
\<close>

definition encodeTabular :: "json list \<Rightarrow> Ctx \<Rightarrow> nat \<Rightarrow> EncodedArray option" where
  "encodeTabular arr ctx indentSize =
     (let N = length arr;
          allObjects = (0 < length arr \<and> list_all isPlainObject arr)
      in if allObjects then
           (let objRows = map objFields arr;
                sk = sameKeySet objRows
            in if fst sk then
                 (let keys = snd sk;
                      primitiveValuesOnly =
                        list_all (\<lambda>obj. list_all (\<lambda>k. isPrimitiveProp (getProp obj k)) keys)
                          objRows
                  in if primitiveValuesOnly then
                       (let cellValues = concat (map (\<lambda>obj. map (getCell obj) keys) objRows);
                            delim = chooseDelimiterForValues cellValues;
                            fields = join (lit '','') (map (\<lambda>k. encodeKey k (lit '','')) keys);
                            hdr = lit ''['' @ natToString N @ lit '']{'' @ fields @ lit ''}'';
                            rowIndent = indentStr (indent ctx + 1) indentSize;
                            lines =
                              map (\<lambda>obj. rowIndent
                                     @ join delim
                                         (map (\<lambda>k. encodePrimitive (getCell obj k) delim) keys))
                                objRows
                        in Some \<lparr>kind = KTabular, header = hdr, body = join [chLF] lines,
                                  delimiter = delim, tabularFields = Some keys\<rparr>)
                     else None)
               else None)
         else None)"

definition encodeInline :: "json list \<Rightarrow> EncodedArray" where
  "encodeInline arr =
     (let N = length arr;
          delim = chooseDelimiterForValues arr;
          bodyStr = join delim (map (\<lambda>x. encodePrimitive x delim) arr)
      in \<lparr>kind = KInline, header = lit ''['' @ natToString N @ lit '']'', body = bodyStr,
           delimiter = delim, tabularFields = None\<rparr>)"

text \<open>\<open>block.split("\n")\<close>.\<close>

fun splitOn :: "jschar \<Rightarrow> jsstring \<Rightarrow> jsstring list" where
  "splitOn sep [] = [[]]"
| "splitOn sep (c # cs) =
     (if c = sep then [] # splitOn sep cs
      else (case splitOn sep cs of
              [] \<Rightarrow> [[c]]
            | line # lns \<Rightarrow> (c # line) # lns))"

definition reindentBlock :: "jsstring \<Rightarrow> nat \<Rightarrow> nat \<Rightarrow> jsstring" where
  "reindentBlock block addIndentLevels indentSize =
     (if block = [] then []
      else
        (let prefix = indentStr addIndentLevels indentSize in
         join [chLF] (map (\<lambda>line. if length line \<noteq> 0 then prefix @ line else line) (splitOn chLF block))))"

text \<open>
  The end of \<open>encodeListItem\<close> for an object: the first line, then the lines of the tail
  that are not empty.
\<close>

definition finishListItem :: "jsstring \<Rightarrow> jsstring list \<Rightarrow> jsstring" where
  "finishListItem firstLine tailLines =
     (let rest = join [chLF] (filter (\<lambda>x. 0 < length x) tailLines) in
      if rest \<noteq> [] then firstLine @ [chLF] @ rest else firstLine)"

function encodeArray :: "json list \<Rightarrow> Ctx \<Rightarrow> nat \<Rightarrow> EncodedArray"
  and encodeObjectField :: "jsstring \<Rightarrow> json \<Rightarrow> Ctx \<Rightarrow> nat \<Rightarrow> jsstring"
  and encodeObject :: "(jsstring \<times> json) list \<Rightarrow> Ctx \<Rightarrow> nat \<Rightarrow> jsstring"
  and encodeListItem :: "json \<Rightarrow> Ctx \<Rightarrow> nat \<Rightarrow> jsstring"
where
  "encodeArray arr ctx indentSize =
     (if list_all isPrimitive arr then encodeInline arr
      else
        (case encodeTabular arr ctx indentSize of
           Some enc \<Rightarrow> enc
         | None \<Rightarrow>
             \<lparr>kind = KList, header = lit ''['' @ natToString (length arr) @ lit '']'',
              body = join [chLF]
                       (map (\<lambda>item. encodeListItem item \<lparr>indent = indent ctx + 1\<rparr> indentSize)
                          arr),
              delimiter = lit '','', tabularFields = None\<rparr>))"
| "encodeObjectField key val ctx indentSize =
     (let ind = indentStr (indent ctx) indentSize;
          k = encodeKey key (lit '','')
      in case val of
           JArr xs \<Rightarrow>
             (let enc = encodeArray xs ctx indentSize in
              if kind enc = KInline then ind @ k @ header enc @ lit '': '' @ body enc
              else if body enc \<noteq> [] then ind @ k @ header enc @ lit '':'' @ [chLF] @ body enc
              else ind @ k @ header enc @ lit '':'')
         | JObj obj \<Rightarrow>
             (if length (map fst obj) = 0 then ind @ k @ lit '':''
              else
                (let b = encodeObject obj \<lparr>indent = indent ctx + 1\<rparr> indentSize in
                 if b \<noteq> [] then ind @ k @ lit '':'' @ [chLF] @ b else ind @ k @ lit '':''))
         | _ \<Rightarrow> ind @ k @ lit '': '' @ encodePrimitive val (lit '',''))"
| "encodeObject obj ctx indentSize =
     join [chLF] (map (\<lambda>kv. encodeObjectField (fst kv) (snd kv) ctx indentSize) obj)"
| "encodeListItem v ctx indentSize =
     (let ind = indentStr (indent ctx) indentSize in
      case v of
        JArr xs \<Rightarrow>
          (let enc = encodeArray xs \<lparr>indent = indent ctx\<rparr> indentSize in
           if kind enc = KInline then ind @ lit ''- '' @ header enc @ lit '': '' @ body enc
           else if body enc \<noteq> []
           then ind @ lit ''- '' @ header enc @ lit '':'' @ [chLF] @ body enc
           else ind @ lit ''- '' @ header enc @ lit '':'')
      | JObj obj \<Rightarrow>
          (case obj of
             [] \<Rightarrow> ind @ lit ''-''
           | first # others \<Rightarrow>
               (let firstKeyToken = encodeKey (fst first) (lit '','');
                    tailFields =
                      map (\<lambda>kv. encodeObjectField (fst kv) (snd kv)
                                   \<lparr>indent = indent ctx + 1\<rparr> indentSize) others
                in case snd first of
                     JArr ys \<Rightarrow>
                       (let enc = encodeArray ys \<lparr>indent = indent ctx\<rparr> indentSize in
                        if kind enc = KInline then
                          finishListItem
                            (ind @ lit ''- '' @ firstKeyToken @ header enc @ lit '': '' @ body enc)
                            tailFields
                        else
                          finishListItem (ind @ lit ''- '' @ firstKeyToken @ header enc @ lit '':'')
                            ((if body enc \<noteq> [] then
                                (if kind enc = KTabular
                                 then [reindentBlock (body enc) 1 indentSize]
                                 else [body enc])
                              else []) @ tailFields))
                   | JObj fobj \<Rightarrow>
                       (let nested = encodeObject fobj \<lparr>indent = indent ctx + 1\<rparr> indentSize in
                        finishListItem (ind @ lit ''- '' @ firstKeyToken @ lit '':'')
                          ((if nested \<noteq> [] then [nested] else []) @ tailFields))
                   | _ \<Rightarrow>
                       finishListItem
                         (ind @ lit ''- '' @ firstKeyToken @ lit '': ''
                            @ encodePrimitive (snd first) (lit '','')) tailFields))
      | _ \<Rightarrow> ind @ lit ''- '' @ encodePrimitive v (lit '',''))"
  by pat_completeness auto
termination
proof -
  have mem: "size x < size_list size xs" if "x \<in> set xs" for x :: json and xs
    using that by (induction xs) auto
  have memp: "size (snd kv) < size_list (\<lambda>x. Suc (size (snd x))) kvs"
    if "kv \<in> set kvs" for kv :: "jsstring \<times> json" and kvs
    using that by (induction kvs) auto
  show ?thesis
    by (relation "measure (\<lambda>x. case x of
            Inl (Inl (arr, ctx, isz)) \<Rightarrow> size (JArr arr)
          | Inl (Inr (key, v, ctx, isz)) \<Rightarrow> size v + 1
          | Inr (Inl (obj, ctx, isz)) \<Rightarrow> size (JObj obj)
          | Inr (Inr (v, ctx, isz)) \<Rightarrow> size v + 1)")
       (auto simp: size_prod_simp dest: mem memp)
qed

declare encodeArray.simps [simp del] encodeObjectField.simps [simp del]
  encodeObject.simps [simp del] encodeListItem.simps [simp del]

section \<open>The top-level driver\<close>

text \<open>
  \<^verbatim>\<open>out.replace(/[ \t]+$/gm, "")\<close>. With the \<open>m\<close> flag \<open>$\<close> holds at the end of the string
  and before every line terminator. A run of spaces and tabs matches from its first
  character when it reaches such a place, and is removed; no shorter part of another run
  matches.
\<close>

definition isSpaceOrTab :: "jschar \<Rightarrow> bool" where
  "isSpaceOrTab c = (c = chSP \<or> c = chTAB)"

definition atLineEnd :: "jsstring \<Rightarrow> bool" where
  "atLineEnd s = (case s of [] \<Rightarrow> True | c # cs \<Rightarrow> isLineTerminator c)"

function stripLineEnds :: "jsstring \<Rightarrow> jsstring" where
  "stripLineEnds [] = []"
| "stripLineEnds (c # cs) =
     (if isSpaceOrTab c \<and> atLineEnd (dropWhile isSpaceOrTab cs)
      then stripLineEnds (dropWhile isSpaceOrTab cs)
      else c # stripLineEnds cs)"
  by pat_completeness auto
termination
  by (relation "measure length") (auto simp: length_dropWhile_le less_Suc_eq_le)

text \<open>
  The options; a field is \<open>None\<close> when the caller has not set it. \<open>indentSize\<close> is a count
  of spaces, a natural number.
\<close>

record EncodeOpts =
  sanitizeJs :: "bool option"
  indentSize :: "nat option"

text \<open>The text \<open>encodeToon\<close> builds from the normalized value, before the final replace.\<close>

fun encodeValue :: "json \<Rightarrow> nat \<Rightarrow> jsstring" where
  "encodeValue (JArr xs) isz =
     (let enc = encodeArray xs \<lparr>indent = 0\<rparr> isz in
      if kind enc = KInline then header enc @ lit '': '' @ body enc
      else header enc @ lit '':'' @ [chLF] @ body enc)"
| "encodeValue (JObj obj) isz =
     (if length (map fst obj) = 0 then [] else encodeObject obj \<lparr>indent = 0\<rparr> isz)"
| "encodeValue v isz = encodePrimitive v (lit '','')"

definition encodeToon :: "hostval \<Rightarrow> EncodeOpts \<Rightarrow> error + jsstring" where
  "encodeToon input opts =
     (let isz = (case indentSize opts of None \<Rightarrow> 2 | Some n \<Rightarrow> n);
          san = (case sanitizeJs opts of None \<Rightarrow> False | Some b \<Rightarrow> b)
      in case normalize input san of
           Inl e \<Rightarrow> Inl e
         | Inr v \<Rightarrow> Inr (stripLineEnds (encodeValue v isz) @ [chLF]))"

text \<open>\<open>encodeToon(input)\<close> with the default \<open>opts = {}\<close>.\<close>

definition defaultOpts :: EncodeOpts where
  "defaultOpts = \<lparr>sanitizeJs = None, indentSize = None\<rparr>"

text \<open>
  Names for the parts of \<open>encodeTabular\<close>: the test it makes, the keys and the delimiter
  it uses.
\<close>

definition tabularKeys :: "json list \<Rightarrow> jsstring list" where
  "tabularKeys arr = snd (sameKeySet (map objFields arr))"

definition tabularOk :: "json list \<Rightarrow> bool" where
  "tabularOk arr =
     (arr \<noteq> [] \<and> list_all isPlainObject arr \<and> fst (sameKeySet (map objFields arr))
      \<and> list_all (\<lambda>obj. list_all (\<lambda>k. isPrimitiveProp (getProp obj k)) (tabularKeys arr))
            (map objFields arr))"

definition tabularDelimiter :: "json list \<Rightarrow> jsstring" where
  "tabularDelimiter arr =
     chooseDelimiterForValues
       (concat (map (\<lambda>obj. map (getCell obj) (tabularKeys arr)) (map objFields arr)))"

section \<open>The claims' own notions\<close>

text \<open>
  What the specification says in words, written down next to the functions of the source,
  to compare the two. The numeric-literal pattern: an optional minus sign, the digits of an
  integer without a leading zero, an optional fractional part, an optional exponent.
\<close>

definition spec_intPart :: "jsstring \<Rightarrow> bool" where
  "spec_intPart ip = (ip = [chZERO] \<or> (ip \<noteq> [] \<and> list_all isDigit ip \<and> hd ip \<noteq> chZERO))"

definition spec_fracPart :: "jsstring \<Rightarrow> bool" where
  "spec_fracPart fr = (\<exists>ds. fr = chDOT # ds \<and> ds \<noteq> [] \<and> list_all isDigit ds)"

definition spec_expPart :: "jsstring \<Rightarrow> bool" where
  "spec_expPart ex =
     (\<exists>e sg ds. ex = e # sg @ ds \<and> (e = chLowerE \<or> e = chUpperE)
        \<and> (sg = [] \<or> sg = [chPLUS] \<or> sg = [chMINUS]) \<and> ds \<noteq> [] \<and> list_all isDigit ds)"

definition spec_numericLiteral :: "jsstring \<Rightarrow> bool" where
  "spec_numericLiteral s =
     (\<exists>sg ip fr ex. s = sg @ ip @ fr @ ex \<and> (sg = [] \<or> sg = [chMINUS]) \<and> spec_intPart ip
        \<and> (fr = [] \<or> spec_fracPart fr) \<and> (ex = [] \<or> spec_expPart ex))"

text \<open>The conditions under which a string is quoted, for the one-character delimiter \<open>dc\<close>.\<close>

definition spec_mustQuote :: "jsstring \<Rightarrow> jschar \<Rightarrow> bool" where
  "spec_mustQuote s dc =
     (s = []
      \<or> (s \<noteq> [] \<and> (isWhiteSpace (hd s) \<or> isWhiteSpace (last s)))
      \<or> s = lit ''true'' \<or> s = lit ''false'' \<or> s = lit ''null''
      \<or> spec_numericLiteral s
      \<or> (s \<noteq> [] \<and> hd s = chMINUS)
      \<or> (\<exists>c \<in> set s. c < 0x20)
      \<or> chDQ \<in> set s \<or> chBSL \<in> set s
      \<or> chCOLON \<in> set s
      \<or> dc \<in> set s
      \<or> chCOMMA \<in> set s \<or> chTAB \<in> set s)"

text \<open>The escape of one character inside quotes.\<close>

definition spec_escapeChar :: "jschar \<Rightarrow> jsstring" where
  "spec_escapeChar c =
     (if c = chBSL then [chBSL, chBSL]
      else if c = chDQ then [chBSL, chDQ]
      else if c = chLF then [chBSL, chLowerN]
      else if c = chCR then [chBSL, chLowerR]
      else if c = chTAB then [chBSL, chLowerT]
      else [c])"

definition spec_quoted :: "jsstring \<Rightarrow> jsstring" where
  "spec_quoted s = [chDQ] @ concat (map spec_escapeChar s) @ [chDQ]"

text \<open>
  The condition of the tabular layout: the array is not empty, every element is a mapping,
  every mapping has as many keys as the first and the same key names, and every value is
  a primitive.
\<close>

definition spec_tabular :: "json list \<Rightarrow> bool" where
  "spec_tabular arr =
     (arr \<noteq> [] \<and> (\<forall>v \<in> set arr. isPlainObject v)
      \<and> (\<forall>v \<in> set arr. length (objFields v) = length (objFields (hd arr))
                          \<and> fst ` set (objFields v) = fst ` set (objFields (hd arr)))
      \<and> (\<forall>v \<in> set arr. \<forall>kv \<in> set (objFields v). isPrimitive (snd kv)))"

text \<open>The two arrays of the specification's examples.\<close>

definition exAda :: "json list" where
  "exAda = [JObj [(lit ''id'', JNum (Decimal False [1] 1)), (lit ''name'', JStr (lit ''Ada''))],
            JObj [(lit ''id'', JNum (Decimal False [2] 1)), (lit ''name'', JStr (lit ''Lin''))]]"

definition exDivergent :: "json list" where
  "exDivergent = [JObj [(lit ''id'', JNum (Decimal False [1] 1))],
                  JObj [(lit ''id'', JNum (Decimal False [1] 1)),
                        (lit ''extra'', JNum (Decimal False [2] 1))]]"

text \<open>
  The inputs strict normalization rejects: a value that holds a number that is not finite,
  or a value whose type is none of null, boolean, number, string, array and plain object.
\<close>

fun spec_invalid :: "hostval \<Rightarrow> bool" where
  "spec_invalid HNull = False"
| "spec_invalid (HBool b) = False"
| "spec_invalid (HStr s) = False"
| "spec_invalid (HNum n) = (\<not> isFinite n)"
| "spec_invalid (HArray xs) = list_ex spec_invalid xs"
| "spec_invalid (HPlain kvs) = list_ex (\<lambda>kv. spec_invalid (snd kv)) kvs"
| "spec_invalid v = True"




text \<open>
  No space or tab stands before a line terminator or at the end of the text.
\<close>

fun okEnds :: "jsstring \<Rightarrow> bool" where
  "okEnds [] = True"
| "okEnds [c] = (\<not> isSpaceOrTab c)"
| "okEnds (c # d # r) = ((isSpaceOrTab c \<longrightarrow> \<not> isLineTerminator d) \<and> okEnds (d # r))"

text \<open>
  The plain decimal text of a number, as the specification describes it: the digits with
  the decimal point shifted by the exponent and padded with zeros, after the sign.
\<close>

definition spec_plainDigits :: "nat list \<Rightarrow> int \<Rightarrow> jsstring" where
  "spec_plainDigits ds n =
     (let digs = map digitChar ds; k = int (length ds) in
      if n \<le> 0 then [chZERO, chDOT] @ replicate (nat (- n)) chZERO @ digs
      else if k \<le> n then digs @ replicate (nat (n - k)) chZERO
      else take (nat n) digs @ [chDOT] @ drop (nat n) digs)"

fun spec_plainDecimal :: "jsnumber \<Rightarrow> jsstring" where
  "spec_plainDecimal (Decimal neg ds n) = (if neg then [chMINUS] else []) @ spec_plainDigits ds n"
| "spec_plainDecimal PosZero = [chZERO]"
| "spec_plainDecimal NegZero = [chZERO]"
| "spec_plainDecimal v = lit ''null''"

text \<open>
  The value of a number, as a rational, and the value a plain decimal text denotes: an
  optional minus, the digits of the integer part, and the digits after the point if there
  is one.
\<close>

definition digitsValue :: "nat list \<Rightarrow> nat" where
  "digitsValue ds = foldl (\<lambda>a d. 10 * a + d) 0 ds"

fun numberValue :: "jsnumber \<Rightarrow> rat" where
  "numberValue (Decimal neg ds n) =
     (if neg then - 1 else 1) * of_nat (digitsValue ds) * 10 powi (n - int (length ds))"
| "numberValue v = 0"

definition plainValue :: "jsstring \<Rightarrow> rat" where
  "plainValue s =
     (let neg = (s \<noteq> [] \<and> hd s = chMINUS);
          r = (if neg then tl s else s);
          ip = takeWhile isDigit r;
          fp = (case dropWhile isDigit r of [] \<Rightarrow> [] | c # cs \<Rightarrow> if c = chDOT then cs else [])
      in (if neg then - 1 else 1)
           * (of_nat (digitsToNat ip) + of_nat (digitsToNat fp) / 10 ^ length fp))"

section \<open>Strings: quoting and escaping\<close>

lemma startsWith_single: "startsWith s [c] = (s \<noteq> [] \<and> hd s = c)"
  by (cases s) auto

lemma includesStr_single: "includesStr s [c] = (c \<in> set s)"
  by (induction s) (auto simp: startsWith_single)

lemma trim_neq_iff:
  "(s \<noteq> trim s) = (s \<noteq> [] \<and> (isWhiteSpace (hd s) \<or> isWhiteSpace (last s)))"
proof (cases "s = []")
  case True
  then show ?thesis by (simp add: trim_def)
next
  case ne: False
  show ?thesis
  proof (cases "isWhiteSpace (hd s)")
    case True
    have "length (trim s) \<le> length (dropWhile isWhiteSpace s)"
      unfolding trim_def
      using length_dropWhile_le [of isWhiteSpace "rev (dropWhile isWhiteSpace s)"] by simp
    also have "\<dots> < length s"
      using True ne by (cases s) (auto simp: length_dropWhile_le less_Suc_eq_le)
    finally have "trim s \<noteq> s" by auto
    with True ne show ?thesis by auto
  next
    case False
    then have d: "dropWhile isWhiteSpace s = s" using ne by (cases s) auto
    have rne: "rev s \<noteq> []" using ne by simp
    show ?thesis
    proof (cases "isWhiteSpace (last s)")
      case True
      then have "isWhiteSpace (hd (rev s))" by (simp add: hd_rev)
      then have "length (dropWhile isWhiteSpace (rev s)) < length (rev s)"
        using rne by (cases "rev s") (auto simp: length_dropWhile_le less_Suc_eq_le)
      then have "length (trim s) < length s" unfolding trim_def d by simp
      then have "trim s \<noteq> s" by auto
      with True ne show ?thesis by auto
    next
      case l: False
      then have "\<not> isWhiteSpace (hd (rev s))" by (simp add: hd_rev)
      then have "dropWhile isWhiteSpace (rev s) = rev s"
        using rne by (cases "rev s") auto
      then have "trim s = s" unfolding trim_def d by simp
      with False l show ?thesis by auto
    qed
  qed
qed

lemma escapeQuoted_chars: "escapeQuoted s = concat (map spec_escapeChar s)"
  by (induction s) (auto simp: escapeQuoted_def replaceAll_def spec_escapeChar_def)

lemma isDigit_consts [simp]:
  "\<not> isDigit chMINUS" "\<not> isDigit chPLUS" "\<not> isDigit chDOT" "\<not> isDigit chLowerE"
  "\<not> isDigit chUpperE" "isDigit chZERO"
  by (simp_all add: isDigit_def)

lemma dropWhile_digits_append:
  "list_all isDigit ds \<Longrightarrow> r = [] \<or> \<not> isDigit (hd r) \<Longrightarrow> dropWhile isDigit (ds @ r) = r"
  by (induction ds) (cases r; auto)+

lemma matchDigits1_append:
  "ds \<noteq> [] \<Longrightarrow> list_all isDigit ds \<Longrightarrow> r = [] \<or> \<not> isDigit (hd r)
   \<Longrightarrow> matchDigits1 (ds @ r) = Some r"
  by (cases ds) (auto simp: matchDigits1_def dropWhile_digits_append)

lemma matchDigits1_SomeD:
  "matchDigits1 s = Some r \<Longrightarrow>
     \<exists>ds. s = ds @ r \<and> ds \<noteq> [] \<and> list_all isDigit ds \<and> (r = [] \<or> \<not> isDigit (hd r))"
proof -
  assume a: "matchDigits1 s = Some r"
  then obtain c cs where s: "s = c # cs" and c: "isDigit c" and r: "r = dropWhile isDigit cs"
    by (auto simp: matchDigits1_def split: list.splits if_splits)
  have "s = (c # takeWhile isDigit cs) @ r" using s r by simp
  moreover have "list_all isDigit (c # takeWhile isDigit cs)"
    using c by (auto simp: list_all_iff dest: set_takeWhileD)
  moreover have "r = [] \<or> \<not> isDigit (hd r)"
    unfolding r by (metis hd_dropWhile)
  ultimately show ?thesis by blast
qed

lemma matchInt_append:
  "spec_intPart ip \<Longrightarrow> r = [] \<or> \<not> isDigit (hd r) \<Longrightarrow> matchInt (ip @ r) = Some r"
  using dropWhile_digits_append [of "tl ip" r]
  by (cases ip) (auto simp: spec_intPart_def matchInt_def)

lemma matchInt_SomeD:
  "matchInt s = Some r \<Longrightarrow> \<exists>ip. s = ip @ r \<and> spec_intPart ip"
proof -
  assume a: "matchInt s = Some r"
  then obtain c cs where s: "s = c # cs" by (cases s) (auto simp: matchInt_def)
  show ?thesis
  proof (cases "c = chZERO")
    case True
    with a s have "s = [chZERO] @ r" by (simp add: matchInt_def)
    then show ?thesis unfolding spec_intPart_def by blast
  next
    case False
    with a s have c: "isDigit c" and r: "r = dropWhile isDigit cs"
      by (auto simp: matchInt_def split: if_splits)
    have "s = (c # takeWhile isDigit cs) @ r" using s r by simp
    moreover have "spec_intPart (c # takeWhile isDigit cs)"
      using c False by (auto simp: spec_intPart_def list_all_iff dest: set_takeWhileD)
    ultimately show ?thesis by blast
  qed
qed

lemma matchFrac_SomeD:
  "matchFrac s = Some r \<Longrightarrow>
     \<exists>fr. s = fr @ r \<and> (fr = [] \<or> spec_fracPart fr) \<and> (r = [] \<or> hd r \<noteq> chDOT \<or> fr \<noteq> [])"
proof (cases s)
  case Nil
  assume "matchFrac s = Some r"
  with Nil show ?thesis by (auto simp: matchFrac_def)
next
  case (Cons c cs)
  assume a: "matchFrac s = Some r"
  show ?thesis
  proof (cases "c = chDOT")
    case True
    with a Cons have "matchDigits1 cs = Some r" by (simp add: matchFrac_def)
    from matchDigits1_SomeD [OF this] obtain ds where
      "cs = ds @ r" "ds \<noteq> []" "list_all isDigit ds" by blast
    then have "s = (chDOT # ds) @ r \<and> spec_fracPart (chDOT # ds)"
      using Cons True by (auto simp: spec_fracPart_def)
    then show ?thesis by blast
  next
    case False
    with a Cons have "r = s" by (simp add: matchFrac_def)
    with False Cons show ?thesis by auto
  qed
qed

lemma matchExp_NilD: "matchExp s = Some [] \<Longrightarrow> s = [] \<or> spec_expPart s"
proof (cases s)
  case Nil
  then show ?thesis by simp
next
  case (Cons c cs)
  assume a: "matchExp s = Some []"
  with Cons have e: "c = chLowerE \<or> c = chUpperE"
    by (auto simp: matchExp_def split: if_splits)
  with a Cons obtain d ds where cs: "cs = d # ds"
    by (cases cs) (auto simp: matchExp_def)
  show ?thesis
  proof (cases "d = chPLUS \<or> d = chMINUS")
    case True
    with a Cons e cs have "matchDigits1 ds = Some []" by (auto simp: matchExp_def)
    from matchDigits1_SomeD [OF this] have "ds \<noteq> [] \<and> list_all isDigit ds" by auto
    then have "spec_expPart (c # [d] @ ds)"
      unfolding spec_expPart_def using e True by blast
    with Cons cs show ?thesis by simp
  next
    case False
    with a Cons e cs have "matchDigits1 cs = Some []" by (auto simp: matchExp_def)
    from matchDigits1_SomeD [OF this] have "cs \<noteq> [] \<and> list_all isDigit cs" by auto
    then have "spec_expPart (c # [] @ cs)"
      unfolding spec_expPart_def using e by blast
    with Cons show ?thesis by simp
  qed
qed

lemma matchExp_spec: "spec_expPart ex \<Longrightarrow> matchExp ex = Some []"
proof -
  assume "spec_expPart ex"
  then obtain e sg ds where ex: "ex = e # sg @ ds" and e: "e = chLowerE \<or> e = chUpperE"
    and sg: "sg = [] \<or> sg = [chPLUS] \<or> sg = [chMINUS]" and ds: "ds \<noteq> []" "list_all isDigit ds"
    unfolding spec_expPart_def by blast
  have m: "matchDigits1 ds = Some []" using matchDigits1_append [of ds "[]"] ds by simp
  from sg show ?thesis
  proof (elim disjE)
    assume "sg = []"
    moreover obtain d ds' where "ds = d # ds'" using ds by (cases ds) auto
    moreover have "d \<noteq> chPLUS \<and> d \<noteq> chMINUS" using ds calculation by auto
    ultimately show ?thesis using ex e m by (auto simp: matchExp_def)
  next
    assume "sg = [chPLUS]"
    then show ?thesis using ex e m by (auto simp: matchExp_def)
  next
    assume "sg = [chMINUS]"
    then show ?thesis using ex e m by (auto simp: matchExp_def)
  qed
qed

lemma expPart_hd: "spec_expPart ex \<Longrightarrow> ex \<noteq> [] \<and> \<not> isDigit (hd ex) \<and> hd ex \<noteq> chDOT"
  by (auto simp: spec_expPart_def)

lemma fracPart_hd: "spec_fracPart fr \<Longrightarrow> fr \<noteq> [] \<and> hd fr = chDOT"
  by (auto simp: spec_fracPart_def)

lemma matchFrac_spec:
  assumes "fr = [] \<or> spec_fracPart fr" "ex = [] \<or> spec_expPart ex"
  shows "matchFrac (fr @ ex) = Some ex"
proof (cases "fr = []")
  case True
  then show ?thesis using assms(2) expPart_hd [of ex]
    by (cases ex) (auto simp: matchFrac_def)
next
  case False
  with assms(1) obtain ds where fr: "fr = chDOT # ds" "ds \<noteq> []" "list_all isDigit ds"
    unfolding spec_fracPart_def by blast
  have "ex = [] \<or> \<not> isDigit (hd ex)" using assms(2) expPart_hd by blast
  then show ?thesis using fr by (simp add: matchFrac_def matchDigits1_append)
qed

lemma intPart_hd: "spec_intPart ip \<Longrightarrow> ip \<noteq> [] \<and> isDigit (hd ip)"
  by (cases ip) (auto simp: spec_intPart_def)

lemma matchMinus_cases: "\<exists>sg. s = sg @ matchMinus s \<and> (sg = [] \<or> sg = [chMINUS])"
  by (cases s) (auto simp: matchMinus_def)

lemma looksLikeNumber_spec: "looksLikeNumber s = spec_numericLiteral s"
proof
  assume "looksLikeNumber s"
  then obtain r1 r2 where m1: "matchInt (matchMinus s) = Some r1"
    and m2: "matchFrac r1 = Some r2" and m3: "matchExp r2 = Some []"
    by (auto simp: looksLikeNumber_def split: option.splits)
  obtain sg where sg: "s = sg @ matchMinus s" "sg = [] \<or> sg = [chMINUS]"
    using matchMinus_cases by blast
  obtain ip where ip: "matchMinus s = ip @ r1" "spec_intPart ip"
    using matchInt_SomeD [OF m1] by blast
  obtain fr where fr: "r1 = fr @ r2" "fr = [] \<or> spec_fracPart fr"
    using matchFrac_SomeD [OF m2] by blast
  have ex: "r2 = [] \<or> spec_expPart r2" using matchExp_NilD [OF m3] .
  have "s = sg @ ip @ fr @ r2" using sg(1) ip(1) fr(1) by simp
  then show "spec_numericLiteral s"
    unfolding spec_numericLiteral_def using sg(2) ip(2) fr(2) ex by blast
next
  assume "spec_numericLiteral s"
  then obtain sg ip fr ex where s: "s = sg @ ip @ fr @ ex" and sg: "sg = [] \<or> sg = [chMINUS]"
    and ip: "spec_intPart ip" and fr: "fr = [] \<or> spec_fracPart fr"
    and ex: "ex = [] \<or> spec_expPart ex"
    unfolding spec_numericLiteral_def by blast
  obtain c cs where ipc: "ip = c # cs" "isDigit c" using intPart_hd [OF ip] by (cases ip) auto
  have mm: "matchMinus s = ip @ fr @ ex"
    using sg s ipc by (auto simp: matchMinus_def)
  have nd: "fr @ ex = [] \<or> \<not> isDigit (hd (fr @ ex))"
    using fr ex fracPart_hd [of fr] expPart_hd [of ex] by (cases "fr = []") auto
  have m1: "matchInt (matchMinus s) = Some (fr @ ex)"
    unfolding mm using matchInt_append [OF ip nd] .
  have m2: "matchFrac (fr @ ex) = Some ex" using matchFrac_spec [OF fr ex] .
  have m3: "matchExp ex = Some []" using ex matchExp_spec by (auto simp: matchExp_def)
  show "looksLikeNumber s" by (simp add: looksLikeNumber_def m1 m2 m3)
qed

lemma lit_simps [simp]: "lit [] = []" "lit (c # cs) = of_nat (of_char c) # lit cs"
  by (simp_all add: lit_def)

lemma needsQuotes_spec: "needsQuotes s [dc] = spec_mustQuote s dc"
  unfolding needsQuotes_def spec_mustQuote_def
  by (simp add: trim_neq_iff includesStr_single startsWith_single looksLikeNumber_spec
        list_ex_iff)



lemma encodeString_spec:
  "encodeString s [dc] = (if spec_mustQuote s dc then spec_quoted s else s)"
  by (simp add: encodeString_def needsQuotes_spec escapeQuoted_chars spec_quoted_def)









section \<open>Array layouts\<close>

lemma encodeTabular_None: "\<not> tabularOk arr \<Longrightarrow> encodeTabular arr ctx isz = None"
  unfolding encodeTabular_def tabularOk_def tabularKeys_def Let_def
  by (simp only: length_greater_0_conv if_False if_True split: if_split) blast

lemma encodeTabular_Some:
  "tabularOk arr \<Longrightarrow>
   encodeTabular arr ctx isz =
     Some \<lparr>kind = KTabular,
           header = lit ''['' @ natToString (length arr) @ lit '']{''
                      @ join (lit '','') (map (\<lambda>k. encodeKey k (lit '','')) (tabularKeys arr))
                      @ lit ''}'',
           body = join [chLF]
                    (map (\<lambda>obj. indentStr (indent ctx + 1) isz
                            @ join (tabularDelimiter arr)
                                (map (\<lambda>k. encodePrimitive (getCell obj k) (tabularDelimiter arr))
                                   (tabularKeys arr)))
                       (map objFields arr)),
           delimiter = tabularDelimiter arr,
           tabularFields = Some (tabularKeys arr)\<rparr>"
  unfolding encodeTabular_def tabularOk_def tabularKeys_def tabularDelimiter_def Let_def
  by (simp only: length_greater_0_conv if_False if_True simp_thms)

lemma encodeArray_inline:
  "list_all isPrimitive arr \<Longrightarrow> encodeArray arr ctx isz = encodeInline arr"
  by (simp add: encodeArray.simps)

lemma plainObject_not_primitive: "isPlainObject v \<Longrightarrow> \<not> isPrimitive v"
  by (cases v) auto

lemma tabularOk_not_primitives: "tabularOk arr \<Longrightarrow> \<not> list_all isPrimitive arr"
  by (cases arr) (auto simp: tabularOk_def dest: plainObject_not_primitive)

lemma encodeArray_tabular:
  "tabularOk arr \<Longrightarrow>
   encodeArray arr ctx isz =
     \<lparr>kind = KTabular,
      header = lit ''['' @ natToString (length arr) @ lit '']{''
                 @ join (lit '','') (map (\<lambda>k. encodeKey k (lit '','')) (tabularKeys arr))
                 @ lit ''}'',
      body = join [chLF]
               (map (\<lambda>obj. indentStr (indent ctx + 1) isz
                       @ join (tabularDelimiter arr)
                           (map (\<lambda>k. encodePrimitive (getCell obj k) (tabularDelimiter arr))
                              (tabularKeys arr)))
                  (map objFields arr)),
      delimiter = tabularDelimiter arr,
      tabularFields = Some (tabularKeys arr)\<rparr>"
  using tabularOk_not_primitives [of arr]
  by (simp add: encodeArray.simps encodeTabular_Some)

lemma encodeArray_list:
  "\<not> list_all isPrimitive arr \<Longrightarrow> \<not> tabularOk arr
   \<Longrightarrow> encodeArray arr ctx isz =
        \<lparr>kind = KList, header = lit ''['' @ natToString (length arr) @ lit '']'',
         body = join [chLF]
                  (map (\<lambda>item. encodeListItem item \<lparr>indent = indent ctx + 1\<rparr> isz) arr),
         delimiter = lit '','', tabularFields = None\<rparr>"
  by (simp add: encodeArray.simps encodeTabular_None)

lemma kind_encodeInline [simp]: "kind (encodeInline arr) = KInline"
  by (simp add: encodeInline_def Let_def)

lemma kind_encodeArray:
  "kind (encodeArray arr ctx isz) =
     (if list_all isPrimitive arr then KInline else if tabularOk arr then KTabular else KList)"
  by (simp add: encodeArray_inline encodeArray_tabular encodeArray_list)

lemma sameKeySetLoop_ok:
  "fst (sameKeySetLoop keys0 objs) \<longleftrightarrow>
     (\<forall>obj \<in> set objs. length obj = length keys0 \<and> fst ` set obj \<subseteq> set keys0)"
proof (induction objs)
  case Nil
  then show ?case by simp
next
  case (Cons obj objs)
  have "list_all (\<lambda>k. k \<in> set keys0) (map fst obj) \<longleftrightarrow> fst ` set obj \<subseteq> set keys0"
    by (auto simp: list_all_iff)
  with Cons show ?case by (simp add: Let_def)
qed

lemma sameKeySetLoop_keys:
  "fst (sameKeySetLoop keys0 objs) \<Longrightarrow> snd (sameKeySetLoop keys0 objs) = keys0"
  by (induction objs) (auto simp: Let_def split: if_splits)

lemma sameKeySet_ok:
  "fst (sameKeySet (obj0 # objs)) \<longleftrightarrow>
     (\<forall>obj \<in> set objs. length obj = length obj0 \<and> fst ` set obj \<subseteq> fst ` set obj0)"
  by (simp add: sameKeySet_def sameKeySetLoop_ok)

lemma sameKeySet_keys:
  "fst (sameKeySet (obj0 # objs)) \<Longrightarrow> snd (sameKeySet (obj0 # objs)) = map fst obj0"
  by (simp add: sameKeySet_def sameKeySetLoop_keys)

lemma distinct_subset_same_length:
  assumes "distinct (map fst obj)" "length obj = length obj0" "fst ` set obj \<subseteq> fst ` set obj0"
  shows "fst ` set obj = fst ` set obj0"
proof -
  have "card (fst ` set obj) = length obj"
    using assms(1) distinct_card [of "map fst obj"] by simp
  moreover have "card (fst ` set obj0) \<le> length obj0"
    using card_length [of "map fst obj0"] by simp
  ultimately have "card (fst ` set obj0) \<le> card (fst ` set obj)"
    using assms(2) by simp
  then show ?thesis
    using assms(3) by (simp add: card_seteq)
qed

lemma getProp_distinct:
  "distinct (map fst obj) \<Longrightarrow> (k, v) \<in> set obj \<Longrightarrow> getProp obj k = Some v"
  by (simp add: getProp_def)

lemma getProp_SomeD: "getProp obj k = Some v \<Longrightarrow> (k, v) \<in> set obj"
  by (simp add: getProp_def map_of_SomeD)

lemma getProp_None_iff: "getProp obj k = None \<longleftrightarrow> k \<notin> fst ` set obj"
  by (simp add: getProp_def map_of_eq_None_iff)

lemma primitive_cells_iff:
  assumes "distinct (map fst obj)"
  shows "(\<forall>k \<in> fst ` set obj. isPrimitiveProp (getProp obj k)) \<longleftrightarrow>
         (\<forall>kv \<in> set obj. isPrimitive (snd kv))"
proof
  assume a: "\<forall>k \<in> fst ` set obj. isPrimitiveProp (getProp obj k)"
  show "\<forall>kv \<in> set obj. isPrimitive (snd kv)"
  proof
    fix kv assume kv: "kv \<in> set obj"
    then have "getProp obj (fst kv) = Some (snd kv)"
      using getProp_distinct [OF assms, of "fst kv" "snd kv"] by simp
    moreover have "isPrimitiveProp (getProp obj (fst kv))" using a kv by blast
    ultimately show "isPrimitive (snd kv)" by (simp add: isPrimitiveProp_def)
  qed
next
  assume a: "\<forall>kv \<in> set obj. isPrimitive (snd kv)"
  show "\<forall>k \<in> fst ` set obj. isPrimitiveProp (getProp obj k)"
  proof
    fix k assume "k \<in> fst ` set obj"
    then obtain v where "getProp obj k = Some v"
      using getProp_None_iff [of obj k] by (cases "getProp obj k") auto
    then show "isPrimitiveProp (getProp obj k)"
      using a getProp_SomeD [of obj k v] by (auto simp: isPrimitiveProp_def)
  qed
qed

lemma wf_json_objFields:
  "wf_json v \<Longrightarrow> distinct (map fst (objFields v))"
  by (cases v) (auto simp: objFields_def)

lemma tabularOk_spec:
  assumes wf: "list_all wf_json arr"
  shows "tabularOk arr \<longleftrightarrow> spec_tabular arr"
proof (cases arr)
  case Nil
  then show ?thesis by (simp add: tabularOk_def spec_tabular_def)
next
  case (Cons v0 vs)
  have d: "distinct (map fst (objFields v))" if "v \<in> set arr" for v
    using wf that wf_json_objFields by (auto simp: list_all_iff)
  have hd: "hd arr = v0" using Cons by simp
  show ?thesis
  proof
    assume ok: "tabularOk arr"
    then have po: "\<forall>v \<in> set arr. isPlainObject v" by (simp add: tabularOk_def list_all_iff)
    from ok have sk: "fst (sameKeySet (objFields v0 # map objFields vs))"
      using Cons by (simp add: tabularOk_def)
    then have keys: "tabularKeys arr = map fst (objFields v0)"
      using Cons sameKeySet_keys by (simp add: tabularKeys_def)
    have same: "length (objFields v) = length (objFields v0)
                \<and> fst ` set (objFields v) = fst ` set (objFields v0)" if "v \<in> set arr" for v
    proof (cases "v = v0")
      case True
      then show ?thesis by simp
    next
      case False
      with that Cons have "v \<in> set vs" by simp
      with sk have "length (objFields v) = length (objFields v0)"
        "fst ` set (objFields v) \<subseteq> fst ` set (objFields v0)"
        by (auto simp: sameKeySet_ok)
      then show ?thesis using distinct_subset_same_length [OF d [OF that]] by blast
    qed
    from ok keys have pv: "\<forall>v \<in> set arr. \<forall>k \<in> fst ` set (objFields v0).
        isPrimitiveProp (getProp (objFields v) k)"
      by (auto simp: tabularOk_def list_all_iff)
    have prim: "\<forall>kv \<in> set (objFields v). isPrimitive (snd kv)" if "v \<in> set arr" for v
      using primitive_cells_iff [OF d [OF that]] pv same [OF that] that by simp
    show "spec_tabular arr"
      unfolding spec_tabular_def hd using Cons po same prim by blast
  next
    assume sp: "spec_tabular arr"
    then have po: "list_all isPlainObject arr" by (simp add: spec_tabular_def list_all_iff)
    from sp have same: "\<forall>v \<in> set arr. length (objFields v) = length (objFields v0)
        \<and> fst ` set (objFields v) = fst ` set (objFields v0)"
      unfolding spec_tabular_def hd by blast
    then have sk: "fst (sameKeySet (map objFields arr))"
      using Cons by (auto simp: sameKeySet_ok)
    then have keys: "tabularKeys arr = map fst (objFields v0)"
      using Cons sameKeySet_keys by (simp add: tabularKeys_def)
    have "\<forall>k \<in> fst ` set (objFields v0). isPrimitiveProp (getProp (objFields v) k)"
      if "v \<in> set arr" for v
      using primitive_cells_iff [OF d [OF that]] sp same that by (simp add: spec_tabular_def)
    then have "list_all (\<lambda>obj. list_all (\<lambda>k. isPrimitiveProp (getProp obj k)) (tabularKeys arr))
                 (map objFields arr)"
      unfolding keys by (auto simp: list_all_iff)
    then show "tabularOk arr"
      unfolding tabularOk_def using Cons po sk by simp
  qed
qed

lemma lit_comma: "lit '','' = [chCOMMA]"
  by (simp add: lit_def)

lemma chooseDelimiter_spec:
  "chooseDelimiterForValues vs =
     (if (\<exists>s. JStr s \<in> set vs \<and> chCOMMA \<in> set s) then [chTAB] else [chCOMMA])"
proof (induction vs)
  case Nil
  then show ?case by (simp add: lit_comma)
next
  case (Cons v vs)
  show ?case
  proof (cases v)
    case (JStr s)
    then show ?thesis using Cons by (simp add: lit_comma includesStr_single) blast
  qed (use Cons in simp_all)
qed

lemma getCell_set:
  assumes "distinct (map fst obj)" "set keys = fst ` set obj"
  shows "set (map (getCell obj) keys) = snd ` set obj"
proof -
  have "getCell obj (fst kv) = snd kv" if "kv \<in> set obj" for kv
    using getProp_distinct [OF assms(1), of "fst kv" "snd kv"] that by (simp add: getCell_def)
  then have "getCell obj ` fst ` set obj = snd ` set obj"
    by (force simp: image_iff)
  then show ?thesis using assms(2) by simp
qed

lemma spec_tabular_keys:
  "spec_tabular arr \<Longrightarrow> list_all wf_json arr \<Longrightarrow> tabularKeys arr = map fst (objFields (hd arr))"
proof -
  assume sp: "spec_tabular arr" and wf: "list_all wf_json arr"
  then have "tabularOk arr" by (simp add: tabularOk_spec)
  then have "arr \<noteq> []" "fst (sameKeySet (map objFields arr))" by (simp_all add: tabularOk_def)
  then show ?thesis
    using sameKeySet_keys [of "objFields (hd arr)" "map objFields (tl arr)"]
    by (cases arr) (simp_all add: tabularKeys_def)
qed


lemma tabular_cells_set:
  assumes sp: "spec_tabular arr" and wf: "list_all wf_json arr"
  shows "set (concat (map (\<lambda>obj. map (getCell obj) (tabularKeys arr)) (map objFields arr)))
         = (\<Union>v \<in> set arr. snd ` set (objFields v))"
proof -
  have k: "tabularKeys arr = map fst (objFields (hd arr))"
    using spec_tabular_keys [OF sp wf] .
  have same: "fst ` set (objFields v) = fst ` set (objFields (hd arr))" if "v \<in> set arr" for v
    using sp that unfolding spec_tabular_def by blast
  have "set (map (getCell (objFields v)) (tabularKeys arr)) = snd ` set (objFields v)"
    if "v \<in> set arr" for v
  proof (rule getCell_set)
    show "distinct (map fst (objFields v))"
      using wf that wf_json_objFields by (auto simp: list_all_iff)
    show "set (tabularKeys arr) = fst ` set (objFields v)"
      unfolding k using same [OF that] by simp
  qed
  then have "(\<Union>v \<in> set arr. set (map (getCell (objFields v)) (tabularKeys arr)))
             = (\<Union>v \<in> set arr. snd ` set (objFields v))"
    by (rule SUP_cong [OF refl])
  moreover have "set (concat (map (\<lambda>obj. map (getCell obj) (tabularKeys arr)) (map objFields arr)))
     = (\<Union>v \<in> set arr. set (map (getCell (objFields v)) (tabularKeys arr)))"
    by (simp only: set_concat set_map image_image)
  ultimately show ?thesis by (simp only:)
qed

lemma natToString_digit: "n < 10 \<Longrightarrow> natToString n = [digitChar n]"
  by (simp add: natToString.simps)

lemma encodeInline_Nil:
  "encodeInline [] = \<lparr>kind = KInline, header = lit ''[0]'', body = [], delimiter = lit '','',
                       tabularFields = None\<rparr>"
  by (simp add: encodeInline_def natToString_digit digitChar_def)

text \<open>
  Claim C3 as stated fails: for the empty sequence \<open>arr.every(isPrimitive)\<close> holds, and
  the selector returns the inline layout, not the list layout.
\<close>

theorem empty_array_list_counterexample:
  "kind (encodeArray [] \<lparr>indent = 0\<rparr> 2) \<noteq> KList"
  by (simp add: encodeArray_inline)

text \<open>
  Claim C3, amended. The inline layout is chosen exactly for the arrays whose elements are
  all primitives; the empty array is one of them and is encoded inline, with header
  \<open>[0]\<close> and an empty body. The tabular layout is chosen only for a non-empty array of
  mappings, and a non-empty array that holds a value that is no primitive and a value that
  is no mapping takes the list layout.
\<close>

theorem layout_selection:
  "(kind (encodeArray arr ctx isz) = KInline \<longleftrightarrow> (\<forall>v \<in> set arr. isPrimitive v))
   \<and> encodeArray [] ctx isz =
        \<lparr>kind = KInline, header = lit ''[0]'', body = [], delimiter = lit '','',
         tabularFields = None\<rparr>
   \<and> (kind (encodeArray arr ctx isz) = KTabular \<longrightarrow> arr \<noteq> [] \<and> (\<forall>v \<in> set arr. isPlainObject v))
   \<and> (arr \<noteq> [] \<and> (\<exists>v \<in> set arr. \<not> isPrimitive v) \<and> (\<exists>v \<in> set arr. \<not> isPlainObject v)
        \<longrightarrow> kind (encodeArray arr ctx isz) = KList)"
proof -
  have a: "kind (encodeArray arr ctx isz) = KInline \<longleftrightarrow> (\<forall>v \<in> set arr. isPrimitive v)"
    by (simp add: kind_encodeArray list_all_iff)
  have b: "encodeArray [] ctx isz =
        \<lparr>kind = KInline, header = lit ''[0]'', body = [], delimiter = lit '','',
         tabularFields = None\<rparr>"
    by (simp add: encodeArray_inline encodeInline_Nil)
  have c: "kind (encodeArray arr ctx isz) = KTabular \<longrightarrow> arr \<noteq> [] \<and> (\<forall>v \<in> set arr. isPlainObject v)"
    by (auto simp: kind_encodeArray tabularOk_def list_all_iff split: if_splits)
  have d: "arr \<noteq> [] \<and> (\<exists>v \<in> set arr. \<not> isPrimitive v) \<and> (\<exists>v \<in> set arr. \<not> isPlainObject v)
        \<longrightarrow> kind (encodeArray arr ctx isz) = KList"
    by (auto simp: kind_encodeArray tabularOk_def list_all_iff)
  from a b c d show ?thesis by blast
qed

text \<open>
  The theorem at an array of one empty mapping, at a mixed array and at an array of
  primitives.
\<close>

theorem layout_selection_witness:
  "kind (encodeArray [JObj []] \<lparr>indent = 0\<rparr> 2) = KTabular
   \<and> kind (encodeArray [JNull, JObj []] \<lparr>indent = 0\<rparr> 2) = KList
   \<and> kind (encodeArray [JNull, JBool True] \<lparr>indent = 0\<rparr> 2) = KInline"
proof -
  have t: "kind (encodeArray [JObj []] \<lparr>indent = 0\<rparr> 2) = KTabular" by code_simp
  have m: "[JNull, JObj []] \<noteq> [] \<and> (\<exists>v \<in> set [JNull, JObj []]. \<not> isPrimitive v)
           \<and> (\<exists>v \<in> set [JNull, JObj []]. \<not> isPlainObject v)" by simp
  have p: "\<forall>v \<in> set [JNull, JBool True]. isPrimitive v" by simp
  from layout_selection [of "[JNull, JObj []]" "\<lparr>indent = 0\<rparr>" 2] m
  have 1: "kind (encodeArray [JNull, JObj []] \<lparr>indent = 0\<rparr> 2) = KList" by blast
  from layout_selection [of "[JNull, JBool True]" "\<lparr>indent = 0\<rparr>" 2] p
  have 2: "kind (encodeArray [JNull, JBool True] \<lparr>indent = 0\<rparr> 2) = KInline" by blast
  from layout_selection [of "[JObj []]" "\<lparr>indent = 0\<rparr>" 2] t
  have "[JObj []] \<noteq> ([] :: json list)" by blast
  with t 1 2 show ?thesis by simp
qed

lemma encodeValue_exAda:
  "encodeValue (JArr exAda) 2 =
     lit ''[2]{id,name}:'' @ [chLF] @ lit ''  1,Ada'' @ [chLF] @ lit ''  2,Lin''"
  by code_simp

lemma not_tabularOk_exDivergent: "\<not> tabularOk exDivergent"
  by (simp add: exDivergent_def tabularOk_def sameKeySet_def objFields_def)

lemma kind_exDivergent: "kind (encodeArray exDivergent ctx isz) = KList"
  using not_tabularOk_exDivergent by (simp add: kind_encodeArray) (simp add: exDivergent_def)

lemma comma_cells:
  "(\<exists>s. JStr s \<in> (\<Union>v \<in> set arr. snd ` set (objFields v)) \<and> chCOMMA \<in> set s)
   = (\<exists>v \<in> set arr. \<exists>kv \<in> set (objFields v). \<exists>s. snd kv = JStr s \<and> chCOMMA \<in> set s)"
  by force

lemma kind_tabular_spec:
  "list_all wf_json arr \<Longrightarrow> kind (encodeArray arr ctx isz) = KTabular \<longleftrightarrow> spec_tabular arr"
  using tabularOk_not_primitives [of arr] tabularOk_spec [of arr]
  by (auto simp: kind_encodeArray)

lemma encodeArray_spec_tabular:
  assumes wf: "list_all wf_json arr" and sp: "spec_tabular arr"
    and ks: "ks = map fst (objFields (hd arr))"
    and d: "d = (if (\<exists>v \<in> set arr. \<exists>kv \<in> set (objFields v). \<exists>s.
                        snd kv = JStr s \<and> chCOMMA \<in> set s)
                 then [chTAB] else [chCOMMA])"
  shows "encodeArray arr ctx isz =
           \<lparr>kind = KTabular,
            header = lit ''['' @ natToString (length arr) @ lit '']{''
                       @ join (lit '','') (map (\<lambda>k. encodeString k (lit '','')) ks) @ lit ''}'',
            body = join [chLF]
                     (map (\<lambda>v. indentStr (indent ctx + 1) isz
                             @ join d (map (\<lambda>k. encodePrimitive (getCell (objFields v) k) d) ks))
                        arr),
            delimiter = d, tabularFields = Some ks\<rparr>"
proof -
  have ok: "tabularOk arr" using sp tabularOk_spec [OF wf] by simp
  have k: "tabularKeys arr = ks" using spec_tabular_keys [OF sp wf] ks by simp
  have "tabularDelimiter arr = d"
    unfolding tabularDelimiter_def chooseDelimiter_spec tabular_cells_set [OF sp wf] d
      comma_cells ..
  then show ?thesis
    unfolding encodeArray_tabular [OF ok] k by (simp add: encodeKey_def comp_def)
qed

text \<open>
  Claim C4. For an array of canonical values (the keys of each mapping distinct), the
  tabular layout is chosen exactly when \<open>spec_tabular\<close> holds: the array is not empty,
  every element is a mapping, all mappings have the key set of the first, and every value
  is a primitive. Then the header is \<open>[N]{k1,k2,...}\<close>, the keys in the order of the first
  mapping, each encoded with the comma as delimiter; the body has one line per row,
  indented one level, the cells in key order and joined by the delimiter chosen for the
  array. The two examples of the claim are part of the statement.
\<close>

theorem tabular_layout:
  assumes "\<forall>v \<in> set arr. wf_json v"
  shows "(kind (encodeArray arr ctx isz) = KTabular \<longleftrightarrow> spec_tabular arr)
    \<and> (spec_tabular arr \<longrightarrow>
         (let ks = map fst (objFields (hd arr));
              d = (if (\<exists>v \<in> set arr. \<exists>kv \<in> set (objFields v). \<exists>s.
                          snd kv = JStr s \<and> chCOMMA \<in> set s)
                   then [chTAB] else [chCOMMA])
          in encodeArray arr ctx isz =
               \<lparr>kind = KTabular,
                header = lit ''['' @ natToString (length arr) @ lit '']{''
                           @ join (lit '','') (map (\<lambda>k. encodeString k (lit '','')) ks) @ lit ''}'',
                body = join [chLF]
                         (map (\<lambda>v. indentStr (indent ctx + 1) isz
                                 @ join d (map (\<lambda>k. encodePrimitive (getCell (objFields v) k) d) ks))
                            arr),
                delimiter = d, tabularFields = Some ks\<rparr>))
    \<and> encodeValue (JArr exAda) 2 =
          lit ''[2]{id,name}:'' @ [chLF] @ lit ''  1,Ada'' @ [chLF] @ lit ''  2,Lin''
    \<and> kind (encodeArray exDivergent ctx isz) = KList"
proof -
  have wf: "list_all wf_json arr" using assms by (simp add: list_all_iff)
  show ?thesis
    using kind_tabular_spec [OF wf] encodeArray_spec_tabular [OF wf] encodeValue_exAda
      kind_exDivergent
    by (simp add: Let_def)
qed

text \<open>The theorem at the array of the first example.\<close>

theorem tabular_layout_witness:
  "list_all wf_json exAda \<and> spec_tabular exAda
   \<and> kind (encodeArray exAda \<lparr>indent = 0\<rparr> 2) = KTabular"
proof -
  have wf: "\<forall>v \<in> set exAda. wf_json v" by (simp add: exAda_def)
  have k: "kind (encodeArray exAda \<lparr>indent = 0\<rparr> 2) = KTabular" by code_simp
  from tabular_layout [OF wf, of "\<lparr>indent = 0\<rparr>" 2, THEN conjunct1] k
  have "spec_tabular exAda" by simp
  with wf k show ?thesis by (simp add: list_all_iff)
qed

text \<open>
  Claim C5. \<open>chooseDelimiterForValues\<close> returns the tab exactly when one of the values
  is a string that contains a comma, and the comma otherwise; values that are no strings
  are not looked at. An inline array uses that delimiter of its elements for its whole
  body, a tabular array that of its cell values.
\<close>

theorem delimiter_choice:
  "chooseDelimiterForValues vs =
     (if (\<exists>s. JStr s \<in> set vs \<and> chCOMMA \<in> set s) then [chTAB] else [chCOMMA])
   \<and> ((\<forall>v \<in> set arr. isPrimitive v) \<longrightarrow>
        (let d = (if (\<exists>s. JStr s \<in> set arr \<and> chCOMMA \<in> set s) then [chTAB] else [chCOMMA])
         in kind (encodeArray arr ctx isz) = KInline
            \<and> delimiter (encodeArray arr ctx isz) = d
            \<and> body (encodeArray arr ctx isz) = join d (map (\<lambda>x. encodePrimitive x d) arr)))
   \<and> ((\<forall>v \<in> set arr. wf_json v) \<and> kind (encodeArray arr ctx isz) = KTabular \<longrightarrow>
        delimiter (encodeArray arr ctx isz) =
          (if (\<exists>v \<in> set arr. \<exists>kv \<in> set (objFields v). \<exists>s. snd kv = JStr s \<and> chCOMMA \<in> set s)
           then [chTAB] else [chCOMMA]))"
proof -
  have a: "(\<forall>v \<in> set arr. isPrimitive v) \<longrightarrow>
        (let d = (if (\<exists>s. JStr s \<in> set arr \<and> chCOMMA \<in> set s) then [chTAB] else [chCOMMA])
         in kind (encodeArray arr ctx isz) = KInline
            \<and> delimiter (encodeArray arr ctx isz) = d
            \<and> body (encodeArray arr ctx isz) = join d (map (\<lambda>x. encodePrimitive x d) arr))"
    by (simp add: encodeArray_inline encodeInline_def Let_def list_all_iff chooseDelimiter_spec)
  have b: "delimiter (encodeArray arr ctx isz) =
          (if (\<exists>v \<in> set arr. \<exists>kv \<in> set (objFields v). \<exists>s. snd kv = JStr s \<and> chCOMMA \<in> set s)
           then [chTAB] else [chCOMMA])"
    if wf: "\<forall>v \<in> set arr. wf_json v" and k: "kind (encodeArray arr ctx isz) = KTabular"
  proof -
    have w: "list_all wf_json arr" using wf by (simp add: list_all_iff)
    from kind_tabular_spec [OF w] k have sp: "spec_tabular arr" by blast
    show ?thesis by (simp add: encodeArray_spec_tabular [OF w sp refl refl])
  qed
  from a b show ?thesis by (simp add: chooseDelimiter_spec)
qed


text \<open>
  The theorem at an inline array with a string that holds a comma, and at the tabular
  array of the specification's example.
\<close>

theorem delimiter_choice_witness:
  "delimiter (encodeArray [JStr (lit ''a,b''), JBool True] \<lparr>indent = 0\<rparr> 2) = [chTAB]
   \<and> delimiter (encodeArray exAda \<lparr>indent = 0\<rparr> 2) = [chCOMMA]"
proof -
  have wf: "\<forall>v \<in> set exAda. wf_json v" by (simp add: exAda_def)
  have k: "kind (encodeArray exAda \<lparr>indent = 0\<rparr> 2) = KTabular" by code_simp
  have c: "\<not> (\<exists>v \<in> set exAda. \<exists>kv \<in> set (objFields v). \<exists>s. snd kv = JStr s \<and> chCOMMA \<in> set s)"
    by (auto simp: exAda_def objFields_def)
  have p: "\<forall>v \<in> set [JStr (lit ''a,b''), JBool True]. isPrimitive v" by simp
  have e: "\<exists>s. JStr s \<in> set [JStr (lit ''a,b''), JBool True] \<and> chCOMMA \<in> set s" by simp
  from delimiter_choice [of "[]" exAda "\<lparr>indent = 0\<rparr>" 2] wf k c
  have 1: "delimiter (encodeArray exAda \<lparr>indent = 0\<rparr> 2) = [chCOMMA]" by simp
  from delimiter_choice [of "[]" "[JStr (lit ''a,b''), JBool True]" "\<lparr>indent = 0\<rparr>" 2] p e
  have 2: "delimiter (encodeArray [JStr (lit ''a,b''), JBool True] \<lparr>indent = 0\<rparr> 2) = [chTAB]"
    by (simp add: Let_def)
  from 1 2 show ?thesis by simp
qed

lemma finishListItem_prefix: "\<exists>r. finishListItem f t = f @ r"
  by (simp add: finishListItem_def Let_def)

lemma encodeObjectField_prefix:
  "\<exists>rest. encodeObjectField k v ctx isz =
            indentStr (indent ctx) isz @ encodeString k (lit '','') @ rest"
  by (cases v) (simp_all add: encodeObjectField.simps Let_def encodeKey_def)

lemma encodeListItem_prefix:
  "\<exists>rest. encodeListItem (JObj ((k, v) # others)) ctx isz =
            indentStr (indent ctx) isz @ lit ''- '' @ encodeString k (lit '','') @ rest"
proof -
  have "\<exists>r. finishListItem (indentStr (indent ctx) isz @ lit ''- '' @ encodeString k (lit '','') @ x) t
            = indentStr (indent ctx) isz @ lit ''- '' @ encodeString k (lit '','') @ r" for x t
    using finishListItem_prefix
      [of "indentStr (indent ctx) isz @ lit ''- '' @ encodeString k (lit '','') @ x" t]
    by auto
  then show ?thesis
    by (cases v) (simp_all add: encodeListItem.simps Let_def encodeKey_def del: lit_simps)
qed

lemma tabular_header:
  assumes "kind (encodeArray arr ctx isz) = KTabular"
  shows "\<exists>ks. tabularFields (encodeArray arr ctx isz) = Some ks
           \<and> header (encodeArray arr ctx isz) =
               lit ''['' @ natToString (length arr) @ lit '']{''
                 @ join (lit '','') (map (\<lambda>k. encodeString k (lit '','')) ks) @ lit ''}''"
proof -
  from assms have "tabularOk arr" by (simp add: kind_encodeArray split: if_splits)
  then show ?thesis by (simp add: encodeArray_tabular encodeKey_def)
qed

text \<open>
  Claim C10. \<open>encodeKey\<close> is \<open>encodeString\<close>. A key that is empty, a numeric literal, one
  of true, false, null, or that holds a colon, comma, tab, double quote, backslash or
  control character, or white space at either end, is encoded in double quotes and
  escaped. The line of an object field starts with the indent and the key token, the
  first line of a list item that is a mapping with the indent, the dash and the key token
  of its first key, and the header of a tabular array lists the key tokens; all three use
  the comma as delimiter.
\<close>

theorem key_tokens:
  "encodeKey k d = encodeString k d
   \<and> ((k = [] \<or> spec_numericLiteral k \<or> k = lit ''true'' \<or> k = lit ''false'' \<or> k = lit ''null''
        \<or> chCOLON \<in> set k \<or> chCOMMA \<in> set k \<or> chTAB \<in> set k \<or> chDQ \<in> set k \<or> chBSL \<in> set k
        \<or> (\<exists>c \<in> set k. c < 0x20)
        \<or> (k \<noteq> [] \<and> (isWhiteSpace (hd k) \<or> isWhiteSpace (last k))))
       \<longrightarrow> encodeKey k (lit '','') = spec_quoted k)
   \<and> (\<exists>rest. encodeObjectField k v ctx isz =
                indentStr (indent ctx) isz @ encodeKey k (lit '','') @ rest)
   \<and> (\<exists>rest. encodeListItem (JObj ((k, v) # others)) ctx isz =
                indentStr (indent ctx) isz @ lit ''- '' @ encodeKey k (lit '','') @ rest)
   \<and> (kind (encodeArray arr ctx isz) = KTabular \<longrightarrow>
        (\<exists>ks. tabularFields (encodeArray arr ctx isz) = Some ks
           \<and> header (encodeArray arr ctx isz) =
               lit ''['' @ natToString (length arr) @ lit '']{''
                 @ join (lit '','') (map (\<lambda>k. encodeKey k (lit '','')) ks) @ lit ''}''))"
proof -
  have q: "(k = [] \<or> spec_numericLiteral k \<or> k = lit ''true'' \<or> k = lit ''false'' \<or> k = lit ''null''
        \<or> chCOLON \<in> set k \<or> chCOMMA \<in> set k \<or> chTAB \<in> set k \<or> chDQ \<in> set k \<or> chBSL \<in> set k
        \<or> (\<exists>c \<in> set k. c < 0x20)
        \<or> (k \<noteq> [] \<and> (isWhiteSpace (hd k) \<or> isWhiteSpace (last k))))
       \<longrightarrow> encodeKey k (lit '','') = spec_quoted k"
    unfolding encodeKey_def lit_comma encodeString_spec spec_mustQuote_def by auto
  have e: "encodeKey = encodeString" by (intro ext) (simp add: encodeKey_def)
  show ?thesis
    using q encodeObjectField_prefix [of k v ctx isz] encodeListItem_prefix [of k v others ctx isz]
      tabular_header [of arr ctx isz]
    unfolding e by blast
qed

text \<open>
  The theorem at a key with a colon, and at the header of the tabular array of the
  specification's example.
\<close>

theorem key_tokens_witness:
  "encodeKey (lit ''a:b'') (lit '','') = [chDQ] @ lit ''a:b'' @ [chDQ]
   \<and> (\<exists>ks. tabularFields (encodeArray exAda \<lparr>indent = 0\<rparr> 2) = Some ks
          \<and> header (encodeArray exAda \<lparr>indent = 0\<rparr> 2) =
              lit ''['' @ natToString (length exAda) @ lit '']{''
                @ join (lit '','') (map (\<lambda>k. encodeKey k (lit '','')) ks) @ lit ''}'')"
proof -
  have c: "chCOLON \<in> set (lit ''a:b'')" by simp
  have k: "kind (encodeArray exAda \<lparr>indent = 0\<rparr> 2) = KTabular" by code_simp
  from key_tokens [of "lit ''a:b''" "lit '',''" JNull "\<lparr>indent = 0\<rparr>" 2 "[]" exAda] c
  have 1: "encodeKey (lit ''a:b'') (lit '','') = spec_quoted (lit ''a:b'')" by blast
  from key_tokens [of "lit ''a:b''" "lit '',''" JNull "\<lparr>indent = 0\<rparr>" 2 "[]" exAda] k
  have 2: "\<exists>ks. tabularFields (encodeArray exAda \<lparr>indent = 0\<rparr> 2) = Some ks
          \<and> header (encodeArray exAda \<lparr>indent = 0\<rparr> 2) =
              lit ''['' @ natToString (length exAda) @ lit '']{''
                @ join (lit '','') (map (\<lambda>k. encodeKey k (lit '','')) ks) @ lit ''}''" by blast
  have 3: "spec_quoted (lit ''a:b'') = [chDQ] @ lit ''a:b'' @ [chDQ]"
    by (simp add: spec_quoted_def spec_escapeChar_def)
  from 1 2 3 show ?thesis by simp
qed

section \<open>Normalization\<close>

lemma sequence_Inr_iff:
  "(\<exists>ys. sequence xs = Inr ys) \<longleftrightarrow> (\<forall>x \<in> set xs. \<exists>y. x = Inr y)"
  by (induction xs) (auto split: sum.splits)

lemma sequence_InlD: "sequence xs = Inl e \<Longrightarrow> Inl e \<in> set xs"
  by (induction xs) (auto split: sum.splits)

lemma sequence_cases:
  "(\<exists>ys. sequence xs = Inr ys \<and> length ys = length xs) \<or> (\<exists>e. sequence xs = Inl e \<and> Inl e \<in> set xs)"
  by (induction xs) (auto split: sum.splits)

lemma strict_result:
  "(spec_invalid v \<longrightarrow> (\<exists>msg. normalize v False = Inl (Error msg)))
   \<and> (\<not> spec_invalid v \<longrightarrow> (\<exists>j. normalize v False = Inr j))"
proof (induction v)
  case (HArray xs)
  let ?rs = "map (\<lambda>x. normalize x False) xs"
  show ?case
  proof (cases "list_ex spec_invalid xs")
    case True
    then obtain x where x: "x \<in> set xs" "spec_invalid x" by (auto simp: list_ex_iff)
    then obtain m where "normalize x False = Inl (Error m)" using HArray by blast
    then have "\<not> (\<forall>r \<in> set ?rs. \<exists>y. r = Inr y)" using x(1) by force
    then have "\<not> (\<exists>ys. sequence ?rs = Inr ys)" using sequence_Inr_iff [of ?rs] by simp
    then obtain e where e: "sequence ?rs = Inl e" by (cases "sequence ?rs") auto
    then have "Inl e \<in> set ?rs" by (rule sequence_InlD)
    then obtain y where y: "y \<in> set xs" "normalize y False = Inl e" by auto
    then have "\<exists>msg. e = Error msg" using HArray [of y] by (cases "spec_invalid y") auto
    with e True show ?thesis by auto
  next
    case False
    then have "\<forall>r \<in> set ?rs. \<exists>y. r = Inr y" using HArray by (auto simp: list_ex_iff)
    then obtain ys where "sequence ?rs = Inr ys" using sequence_Inr_iff [of ?rs] by blast
    with False show ?thesis by simp
  qed
next
  case (HPlain kvs)
  let ?f = "\<lambda>(k, v). case normalize v False of Inl e \<Rightarrow> Inl e | Inr w \<Rightarrow> Inr (k, w)"
  let ?rs = "map ?f kvs"
  have ih: "(spec_invalid (snd kv) \<longrightarrow> (\<exists>msg. normalize (snd kv) False = Inl (Error msg)))
            \<and> (\<not> spec_invalid (snd kv) \<longrightarrow> (\<exists>j. normalize (snd kv) False = Inr j))"
    if "kv \<in> set kvs" for kv
    using HPlain [of kv "snd kv"] that by (cases kv) auto
  show ?case
  proof (cases "list_ex (\<lambda>kv. spec_invalid (snd kv)) kvs")
    case True
    then obtain kv where x: "kv \<in> set kvs" "spec_invalid (snd kv)" by (auto simp: list_ex_iff)
    then obtain m where "normalize (snd kv) False = Inl (Error m)" using ih by blast
    then have "?f kv = Inl (Error m)" by (auto split: prod.splits)
    then have "\<not> (\<forall>r \<in> set ?rs. \<exists>y. r = Inr y)" using x(1) by force
    then have "\<not> (\<exists>ys. sequence ?rs = Inr ys)" using sequence_Inr_iff [of ?rs] by simp
    then obtain e where e: "sequence ?rs = Inl e" by (cases "sequence ?rs") auto
    then have "Inl e \<in> set ?rs" by (rule sequence_InlD)
    then obtain y where y: "y \<in> set kvs" "?f y = Inl e" by auto
    from y(2) have "normalize (snd y) False = Inl e"
      by (auto split: prod.splits sum.splits)
    then have "\<exists>msg. e = Error msg" using ih [OF y(1)] by (cases "spec_invalid (snd y)") auto
    with e True show ?thesis by auto
  next
    case False
    have "\<exists>y. ?f kv = Inr y" if "kv \<in> set kvs" for kv
      using ih [OF that] False that by (auto simp: list_ex_iff split: prod.splits)
    then have "\<forall>r \<in> set ?rs. \<exists>y. r = Inr y" by auto
    then obtain ys where "sequence ?rs = Inr ys" using sequence_Inr_iff [of ?rs] by blast
    with False show ?thesis by simp
  qed
qed auto

lemma strict_error_iff: "(\<exists>msg. normalize v False = Inl (Error msg)) \<longleftrightarrow> spec_invalid v"
  using strict_result [of v] by (cases "spec_invalid v") auto

lemma strict_error_kind: "normalize v False = Inl e \<Longrightarrow> \<exists>msg. e = Error msg"
  using strict_result [of v] by (cases "spec_invalid v") auto

lemma strict_ok_iff: "(\<exists>j. normalize v False = Inr j) \<longleftrightarrow> \<not> spec_invalid v"
  using strict_result [of v] by (cases "spec_invalid v") auto

lemma encodeToon_strict:
  "sanitizeJs opts = None \<or> sanitizeJs opts = Some False \<Longrightarrow>
   encodeToon v opts =
     (case normalize v False of
        Inl e \<Rightarrow> Inl e
      | Inr j \<Rightarrow> Inr (stripLineEnds
                       (encodeValue j (case indentSize opts of None \<Rightarrow> 2 | Some n \<Rightarrow> n))
                     @ [chLF]))"
  by (auto simp: encodeToon_def Let_def)


lemma encodeToon_strict_error_iff:
  assumes "sanitizeJs opts = None \<or> sanitizeJs opts = Some False"
  shows "(\<exists>msg. encodeToon v opts = Inl (Error msg)) \<longleftrightarrow> spec_invalid v"
  using strict_result [of v]
  by (cases "spec_invalid v") (auto simp: encodeToon_strict [OF assms])

lemma encodeToon_strict_ok_iff:
  assumes "sanitizeJs opts = None \<or> sanitizeJs opts = Some False"
  shows "(\<exists>text. encodeToon v opts = Inr text) \<longleftrightarrow> \<not> spec_invalid v"
  using strict_result [of v]
  by (cases "spec_invalid v") (auto simp: encodeToon_strict [OF assms])

text \<open>
  Claim C6. In strict mode \<open>normalize\<close> throws its error (\<open>new Error\<close>, the specification's
  InvalidValueError) exactly for the inputs that hold a number that is not finite or a
  value of a type outside null, boolean, number, string, array and plain object
  (\<open>spec_invalid\<close>), and returns a value for all others. \<open>encodeToon\<close> in strict mode fails
  with the same error, and then returns no text, exactly for these inputs. Null, booleans
  and strings pass through unchanged, negative zero becomes positive zero and every other
  finite number is kept.
\<close>

theorem strict_normalize:
  "((\<exists>msg. normalize v False = Inl (Error msg)) \<longleftrightarrow> spec_invalid v)
   \<and> ((\<exists>j. normalize v False = Inr j) \<longleftrightarrow> \<not> spec_invalid v)
   \<and> (sanitizeJs opts = None \<or> sanitizeJs opts = Some False \<longrightarrow>
        ((\<exists>msg. encodeToon v opts = Inl (Error msg)) \<longleftrightarrow> spec_invalid v)
        \<and> ((\<exists>text. encodeToon v opts = Inr text) \<longleftrightarrow> \<not> spec_invalid v))
   \<and> normalize HNull False = Inr JNull
   \<and> normalize (HBool b) False = Inr (JBool b)
   \<and> normalize (HStr s) False = Inr (JStr s)
   \<and> normalize (HNum NegZero) False = Inr (JNum PosZero)
   \<and> (isFinite n \<and> n \<noteq> NegZero \<longrightarrow> normalize (HNum n) False = Inr (JNum n))"
  using strict_error_iff [of v] strict_ok_iff [of v] encodeToon_strict_error_iff [of opts v]
    encodeToon_strict_ok_iff [of opts v]
  by simp

text \<open>
  The theorem at an array with NaN, at a mapping with a \<open>Date\<close>, at an array with negative
  zero and at the number -1.5.
\<close>

theorem strict_normalize_witness:
  "(\<exists>msg. normalize (HArray [HNum (Decimal False [1] 1), HNum NaN]) False = Inl (Error msg))
   \<and> (\<exists>msg. encodeToon (HPlain [(lit ''a'', HDate (Some (lit ''2020-01-01T00:00:00.000Z'')))])
                defaultOpts = Inl (Error msg))
   \<and> (\<exists>text. encodeToon (HArray [HNum NegZero]) defaultOpts = Inr text)
   \<and> normalize (HNum (Decimal True [1, 5] 1)) False = Inr (JNum (Decimal True [1, 5] 1))"
proof -
  let ?a = "HArray [HNum (Decimal False [1] 1), HNum NaN]"
  let ?b = "HPlain [(lit ''a'', HDate (Some (lit ''2020-01-01T00:00:00.000Z'')))]"
  let ?c = "HArray [HNum NegZero]"
  have o: "sanitizeJs defaultOpts = None \<or> sanitizeJs defaultOpts = Some False"
    by (simp add: defaultOpts_def)
  have 1: "spec_invalid ?a" by simp
  have 2: "spec_invalid ?b" by simp
  have 3: "\<not> spec_invalid ?c" by simp
  have 4: "isFinite (Decimal True [1, 5] 1) \<and> Decimal True [1, 5] 1 \<noteq> NegZero" by simp
  from strict_normalize [of ?a defaultOpts] 1
  have a: "\<exists>msg. normalize ?a False = Inl (Error msg)" by blast
  from strict_normalize [of ?b defaultOpts] 2 o
  have b: "\<exists>msg. encodeToon ?b defaultOpts = Inl (Error msg)" by blast
  from strict_normalize [of ?c defaultOpts] 3 o
  have c: "\<exists>text. encodeToon ?c defaultOpts = Inr text" by blast
  from strict_normalize [of HNull defaultOpts _ _ "Decimal True [1, 5] 1"] 4
  have d: "normalize (HNum (Decimal True [1, 5] 1)) False = Inr (JNum (Decimal True [1, 5] 1))"
    by blast
  from a b c d show ?thesis by blast
qed

text \<open>
  Claim C7. Sanitize mode does fail: for an invalid \<open>Date\<close> (\<open>new Date(NaN)\<close>),
  \<open>input.toISOString()\<close> throws a RangeError, which \<open>normalize\<close> and \<open>encodeToon\<close> pass on,
  at the top level as well as inside a mapping.
\<close>

theorem sanitize_invalid_date_fails:
  "normalize (HDate None) True = Inl RangeError
   \<and> encodeToon (HDate None) \<lparr>sanitizeJs = Some True, indentSize = None\<rparr> = Inl RangeError
   \<and> encodeToon (HPlain [(lit ''when'', HDate None)]) \<lparr>sanitizeJs = Some True, indentSize = None\<rparr>
       = Inl RangeError"
  by (simp add: encodeToon_def)


lemma sanitize_undefined_element:
  "normalize (HArray [HUndefined]) True = Inr (JArr [JNull])"
  by simp

lemma sanitize_undefined_field:
  "normalize (HPlain [(k, HUndefined)]) True = Inr (JObj [])"
  by simp

lemma sanitize_example:
  "encodeToon (HPlain [(lit ''a'', HUndefined), (lit ''b'', HArray [HUndefined])])
     \<lparr>sanitizeJs = Some True, indentSize = None\<rparr> = Inr (lit ''b[1]: null'' @ [chLF])"
  by code_simp








section \<open>The shape of the output\<close>

lemma spaceOrTab_not_terminator: "isSpaceOrTab c \<Longrightarrow> \<not> isLineTerminator c"
  by (auto simp: isSpaceOrTab_def isLineTerminator_def)

lemma stripLineEnds_head:
  assumes "\<not> atLineEnd (dropWhile isSpaceOrTab cs)"
  shows "\<exists>d r. stripLineEnds cs = d # r \<and> \<not> isLineTerminator d"
proof (cases cs)
  case Nil
  with assms show ?thesis by (simp add: atLineEnd_def)
next
  case (Cons c cs')
  show ?thesis
  proof (cases "isSpaceOrTab c")
    case True
    with assms Cons have "stripLineEnds cs = c # stripLineEnds cs'" by simp
    with True show ?thesis using spaceOrTab_not_terminator by blast
  next
    case False
    with assms Cons have "\<not> isLineTerminator c" by (simp add: atLineEnd_def)
    moreover from False Cons have "stripLineEnds cs = c # stripLineEnds cs'" by simp
    ultimately show ?thesis by blast
  qed
qed

lemma okEnds_Cons: "\<not> isSpaceOrTab c \<Longrightarrow> okEnds t \<Longrightarrow> okEnds (c # t)"
  by (cases t) auto

lemma okEnds_stripLineEnds: "okEnds (stripLineEnds s)"
proof (induction s rule: stripLineEnds.induct)
  case 1
  then show ?case by simp
next
  case (2 c cs)
  show ?case
  proof (cases "isSpaceOrTab c \<and> atLineEnd (dropWhile isSpaceOrTab cs)")
    case True
    with 2 show ?thesis by simp
  next
    case False
    then have ih: "okEnds (stripLineEnds cs)" using 2 by auto
    have eq: "stripLineEnds (c # cs) = c # stripLineEnds cs" using False by auto
    show ?thesis
    proof (cases "isSpaceOrTab c")
      case sp: True
      with False have "\<not> atLineEnd (dropWhile isSpaceOrTab cs)" by simp
      then obtain d r where "stripLineEnds cs = d # r" "\<not> isLineTerminator d"
        using stripLineEnds_head by blast
      with ih show ?thesis unfolding eq by simp
    next
      case False
      then show ?thesis unfolding eq using ih by (rule okEnds_Cons)
    qed
  qed
qed

lemma splitOn_nonempty: "splitOn sep s \<noteq> []"
  by (induction s) (auto split: list.splits)

lemma splitOn_hd_Nil: "hd (splitOn sep s) = [] \<longleftrightarrow> s = [] \<or> hd s = sep"
  by (cases s) (auto split: list.splits simp: splitOn_nonempty)

lemma lines_okEnds:
  "okEnds t \<Longrightarrow> \<forall>line \<in> set (splitOn chLF (t @ [chLF])). line = [] \<or> \<not> isSpaceOrTab (last line)"
proof (induction t rule: okEnds.induct)
  case 1
  then show ?case by simp
next
  case (2 c)
  then show ?case by (auto simp: isSpaceOrTab_def)
next
  case (3 c d r)
  then have ih: "\<forall>line \<in> set (splitOn chLF ((d # r) @ [chLF])). line = [] \<or> \<not> isSpaceOrTab (last line)"
    by simp
  obtain line lns where sp: "splitOn chLF ((d # r) @ [chLF]) = line # lns"
    using splitOn_nonempty [of chLF "(d # r) @ [chLF]"] by (cases "splitOn chLF ((d # r) @ [chLF])") auto
  have lnil: "line = [] \<longleftrightarrow> d = chLF"
    using splitOn_hd_Nil [of chLF "(d # r) @ [chLF]"] sp by simp
  show ?case
  proof (cases "c = chLF")
    case True
    then show ?thesis using ih by simp
  next
    case False
    then have eq: "splitOn chLF ((c # d # r) @ [chLF]) = (c # line) # lns" using sp by simp
    have "\<not> isSpaceOrTab (last (c # line))"
    proof (cases "line = []")
      case True
      then have "d = chLF" using lnil by simp
      then have "isLineTerminator d" by (simp add: isLineTerminator_def)
      with 3(2) have "\<not> isSpaceOrTab c" by auto
      with True show ?thesis by simp
    next
      case False
      then show ?thesis using ih sp by auto
    qed
    then show ?thesis unfolding eq using ih sp by auto
  qed
qed

text \<open>
  Claim C8 as stated fails: for an array of one empty mapping the tabular layout gives one
  row that is only the indent, the replace empties that line, and the text returned ends
  with two newlines.
\<close>

theorem double_newline_counterexample:
  "encodeToon (HArray [HPlain []]) defaultOpts = Inr (lit ''[1]{}:'' @ [chLF, chLF])"
  by code_simp

text \<open>
  Claim C8, amended. Whenever \<open>encodeToon\<close> returns text, the text ends with a newline
  (one is appended after the trailing white space of every line has been removed), no
  line of it ends with a space or a tab, and the empty mapping at the top level gives
  the newline alone.
\<close>

theorem output_shape:
  assumes "encodeToon input opts = Inr text"
  shows "text \<noteq> [] \<and> last text = chLF
    \<and> (\<forall>line \<in> set (splitOn chLF text). line \<noteq> [] \<longrightarrow> last line \<noteq> chSP \<and> last line \<noteq> chTAB)
    \<and> encodeToon (HPlain []) opts = Inr [chLF]"
proof -
  from assms obtain t where t: "text = stripLineEnds t @ [chLF]"
    by (auto simp: encodeToon_def Let_def split: sum.splits)
  have "\<forall>line \<in> set (splitOn chLF text). line = [] \<or> \<not> isSpaceOrTab (last line)"
    unfolding t using okEnds_stripLineEnds by (rule lines_okEnds)
  then have "\<forall>line \<in> set (splitOn chLF text). line \<noteq> [] \<longrightarrow> last line \<noteq> chSP \<and> last line \<noteq> chTAB"
    by (auto simp: isSpaceOrTab_def)
  moreover have "encodeToon (HPlain []) opts = Inr [chLF]"
    by (simp add: encodeToon_def Let_def)
  ultimately show ?thesis using t by simp
qed

text \<open>The theorem at an array that takes the list layout.\<close>

theorem output_shape_witness:
  "encodeToon (HArray [HNull, HArray []]) defaultOpts
     = Inr (lit ''[2]:'' @ [chLF] @ lit ''  - null'' @ [chLF] @ lit ''  - [0]:'' @ [chLF])
   \<and> last (lit ''[2]:'' @ [chLF] @ lit ''  - null'' @ [chLF] @ lit ''  - [0]:'' @ [chLF]) = chLF"
proof -
  have e: "encodeToon (HArray [HNull, HArray []]) defaultOpts
     = Inr (lit ''[2]:'' @ [chLF] @ lit ''  - null'' @ [chLF] @ lit ''  - [0]:'' @ [chLF])"
    by code_simp
  from output_shape [OF e] e show ?thesis by blast
qed

section \<open>Numbers: the canonical decimal text\<close>

lemma digit_cases: "d < 10 \<Longrightarrow> d \<in> {0, 1, 2, 3, 4, 5, 6, 7, 8, 9 :: nat}"
  by auto

lemma digitChar_isDigit [simp]: "d < 10 \<Longrightarrow> isDigit (digitChar d)"
  by (drule digit_cases) (auto simp: digitChar_def isDigit_def)

lemma digitChar_zero_iff [simp]: "d < 10 \<Longrightarrow> digitChar d = chZERO \<longleftrightarrow> d = 0"
  by (drule digit_cases) (auto simp: digitChar_def)

lemma digitChar_unat: "d < 10 \<Longrightarrow> unat (digitChar d) - 48 = d"
  by (drule digit_cases) (auto simp: digitChar_def)

lemma isDigit_not_special:
  "isDigit c \<Longrightarrow> c \<noteq> chDOT \<and> c \<noteq> chLowerE \<and> c \<noteq> chUpperE \<and> c \<noteq> chPLUS \<and> c \<noteq> chMINUS"
  by (auto simp: isDigit_def)

lemma all_digits_map: "list_all (\<lambda>d. d < 10) ds \<Longrightarrow> list_all isDigit (map digitChar ds)"
  by (induction ds) auto

lemma natToString_digits: "list_all isDigit (natToString m) \<and> natToString m \<noteq> []"
proof (induction m rule: natToString.induct)
  case (1 n)
  show ?case
  proof (cases "n < 10")
    case True
    then show ?thesis by (subst natToString.simps, subst natToString.simps) simp
  next
    case False
    have "n mod 10 < 10" by simp
    then have "isDigit (digitChar (n mod 10))" by (rule digitChar_isDigit)
    with 1 False show ?thesis
      by (subst natToString.simps, subst natToString.simps) simp
  qed
qed

lemma digitsToNat_snoc: "digitsToNat (s @ [c]) = 10 * digitsToNat s + (unat c - 48)"
  by (simp add: digitsToNat_def)

lemma digitsToNat_natToString: "digitsToNat (natToString m) = m"
proof (induction m rule: natToString.induct)
  case (1 n)
  show ?case
  proof (cases "n < 10")
    case True
    then show ?thesis
      by (subst natToString.simps) (simp add: digitsToNat_def digitChar_unat)
  next
    case False
    have "digitsToNat (natToString n) = 10 * digitsToNat (natToString (n div 10))
            + (unat (digitChar (n mod 10)) - 48)"
      using False by (subst natToString.simps) (simp add: digitsToNat_snoc)
    also have "\<dots> = 10 * (n div 10) + n mod 10"
      using 1 False by (simp add: digitChar_unat)
    finally show ?thesis by simp
  qed
qed

lemma stripFracZeros_no_dot: "chDOT \<notin> set t \<Longrightarrow> stripFracZeros t = t"
  by (induction t) auto

lemma stripFracZeros_prefix:
  "chDOT \<notin> set pre \<Longrightarrow> stripFracZeros (pre @ t) = pre @ stripFracZeros t"
  by (induction pre) auto

lemma digits_no_dot: "list_all isDigit cs \<Longrightarrow> chDOT \<notin> set cs"
  using isDigit_not_special by (auto simp: list_all_iff)

lemma stripFracZeros_keep:
  assumes "chDOT \<notin> set pre" "cs \<noteq> []" "list_all isDigit cs" "last cs \<noteq> chZERO"
  shows "stripFracZeros (pre @ chDOT # cs) = pre @ chDOT # cs"
  using assms by (simp add: stripFracZeros_prefix stripFracZeros_no_dot digits_no_dot)

lemma dropTrailingDot_keep: "t \<noteq> [] \<Longrightarrow> last t \<noteq> chDOT \<Longrightarrow> dropTrailingDot t = t"
  by (simp add: dropTrailingDot_def)

lemma fraction_kept:
  assumes "chDOT \<notin> set pre" "cs \<noteq> []" "list_all isDigit cs" "last cs \<noteq> chZERO"
  shows "dropTrailingDot (stripFracZeros (pre @ chDOT # cs)) = pre @ chDOT # cs"
proof -
  have "isDigit (last cs)" using assms(2,3) by (simp add: list_all_iff)
  then have "last (pre @ chDOT # cs) \<noteq> chDOT" using assms(2) isDigit_not_special by auto
  then show ?thesis
    using assms by (simp add: stripFracZeros_keep dropTrailingDot_keep)
qed

lemma repeat_zero: "repeat (lit ''0'') m = replicate m chZERO"
  by (induction m) (simp_all add: repeat_def)

lemma takeWhile_digits:
  "list_all isDigit ds \<Longrightarrow> \<not> isDigit c \<Longrightarrow> takeWhile isDigit (ds @ c # r) = ds"
  by (induction ds) auto

lemma dropWhile_digits:
  "list_all isDigit ds \<Longrightarrow> \<not> isDigit c \<Longrightarrow> dropWhile isDigit (ds @ c # r) = c # r"
  by (induction ds) auto

lemma takeWhile_all_digits: "list_all isDigit ds \<Longrightarrow> takeWhile isDigit ds = ds"
  by (induction ds) auto

lemma dropWhile_all_digits: "list_all isDigit ds \<Longrightarrow> dropWhile isDigit ds = []"
  by (induction ds) auto

lemma matchSign_minus: "matchSign (chMINUS # r) = ([chMINUS], r)"
  by (simp add: matchSign_def)

lemma matchSign_plus: "matchSign (chPLUS # r) = ([chPLUS], r)"
  by (simp add: matchSign_def)

lemma matchSign_digit: "isDigit c \<Longrightarrow> matchSign (c # r) = ([], c # r)"
  using isDigit_not_special [of c] by (simp add: matchSign_def)

lemma matchExpForm_eval:
  assumes sg: "sg = [] \<or> sg = [chMINUS]"
    and d1: "isDigit d1"
    and mid: "(fr = None \<and> mid = []) \<or> (\<exists>rest. fr = Some rest \<and> rest \<noteq> [] \<and> list_all isDigit rest \<and> mid = chDOT # rest)"
    and sc: "sc = chPLUS \<or> sc = chMINUS"
    and ed: "ed \<noteq> []" "list_all isDigit ed"
  shows "matchExpForm (sg @ d1 # mid @ chLowerE # sc # ed) = Some (sg, [d1], fr, sc # ed)"
proof -
  let ?tail = "chLowerE # sc # ed"
  have s0: "matchSign (sg @ d1 # mid @ ?tail) = (sg, d1 # mid @ ?tail)"
    using sg d1 by (auto simp: matchSign_minus matchSign_digit)
  have ne: "\<not> isDigit chDOT" "\<not> isDigit chLowerE" by (simp_all add: isDigit_def)
  have hd_mid: "mid @ ?tail = c # r \<Longrightarrow> \<not> isDigit c" for c r
    using mid ne by (auto simp: Cons_eq_append_conv)
  obtain c r where cr: "mid @ ?tail = c # r" by (cases "mid @ ?tail") auto
  have nd: "\<not> isDigit c" using hd_mid [OF cr] .
  have ip: "takeWhile isDigit (d1 # mid @ ?tail) = [d1]"
    unfolding cr using d1 nd by simp
  have r1: "dropWhile isDigit (d1 # mid @ ?tail) = mid @ ?tail"
    unfolding cr using d1 nd by simp
  have fg: "matchFracGroup (mid @ ?tail) = (fr, ?tail)"
  proof (cases "fr")
    case None
    with mid have "mid = []" by auto
    with None show ?thesis by (simp add: matchFracGroup_def)
  next
    case (Some rest)
    with mid have m: "rest \<noteq> []" "list_all isDigit rest" "mid = chDOT # rest" by auto
    have "takeWhile isDigit (rest @ ?tail) = rest" "dropWhile isDigit (rest @ ?tail) = ?tail"
      using takeWhile_digits [OF m(2) ne(2)] dropWhile_digits [OF m(2) ne(2)] by simp_all
    with m Some show ?thesis by (simp add: matchFracGroup_def)
  qed
  have s3: "matchSign (sc # ed) = ([sc], ed)"
    using sc by (auto simp: matchSign_minus matchSign_plus)
  show ?thesis
    by (simp only: matchExpForm_def s0 Let_def prod.case ip r1 fg list.case s3
          takeWhile_all_digits [OF ed(2)] dropWhile_all_digits [OF ed(2)])
       (simp add: ed(1))
qed

lemma parseInt_signed:
  "parseInt (chPLUS # natToString m) = int m" "parseInt (chMINUS # natToString m) = - int m"
  by (simp_all add: parseInt_def digitsToNat_natToString)

lemma wf_digits:
  assumes "wf_number (Decimal neg ds n)"
  shows "list_all isDigit (map digitChar ds)" "map digitChar ds \<noteq> []"
    "hd (map digitChar ds) \<noteq> chZERO" "last (map digitChar ds) \<noteq> chZERO"
proof -
  from assms have a: "ds \<noteq> []" "list_all (\<lambda>d. d < 10) ds" "hd ds \<noteq> 0" "last ds \<noteq> 0" by auto
  show "list_all isDigit (map digitChar ds)" using a(2) by (rule all_digits_map)
  show "map digitChar ds \<noteq> []" using a(1) by simp
  have "hd ds < 10" "last ds < 10" using a(1,2) by (auto simp: list_all_iff)
  then show "hd (map digitChar ds) \<noteq> chZERO" "last (map digitChar ds) \<noteq> chZERO"
    using a by (simp_all add: hd_map last_map)
qed

lemma stripLeadingZeros_nonzero: "t \<noteq> [] \<Longrightarrow> hd t \<noteq> chZERO \<Longrightarrow> stripLeadingZeros t = t"
  by (cases t) (simp_all add: stripLeadingZeros_def)

lemma stripLeadingZeros_zero_dot: "stripLeadingZeros (chZERO # chDOT # r) = chZERO # chDOT # r"
  by (simp add: stripLeadingZeros_def isDigit_def)

lemma finishNumber_integer:
  assumes "list_all isDigit t" "t \<noteq> []" "hd t \<noteq> chZERO"
  shows "finishNumber sign t = sign @ t"
  using assms digits_no_dot [of t]
  by (simp add: finishNumber_def stripLeadingZeros_nonzero includesStr_single)

lemma finishNumber_small:
  assumes "list_all isDigit cs" "cs \<noteq> []" "last cs \<noteq> chZERO"
  shows "finishNumber sign (chZERO # chDOT # cs) = sign @ chZERO # chDOT # cs"
  using fraction_kept [of "[chZERO]" cs] assms
  by (simp add: finishNumber_def stripLeadingZeros_zero_dot includesStr_single)

lemma finishNumber_point:
  assumes "list_all isDigit a" "a \<noteq> []" "hd a \<noteq> chZERO"
    "list_all isDigit cs" "cs \<noteq> []" "last cs \<noteq> chZERO"
  shows "finishNumber sign (a @ chDOT # cs) = sign @ a @ chDOT # cs"
proof -
  have "stripLeadingZeros (a @ chDOT # cs) = a @ chDOT # cs"
    using assms(2,3) by (intro stripLeadingZeros_nonzero) (auto simp: hd_append)
  then show ?thesis
    using fraction_kept [of a cs] assms digits_no_dot [of a]
    by (simp add: finishNumber_def includesStr_single)
qed

lemma no_exponent_chars:
  assumes "list_all (\<lambda>c. isDigit c \<or> c = chDOT \<or> c = chMINUS) s"
  shows "\<not> list_ex (\<lambda>c. c = chLowerE \<or> c = chUpperE) s"
  using assms isDigit_not_special by (auto simp: list_all_iff list_ex_iff)

lemma encode_plain:
  assumes "isFinite x" "x \<noteq> NegZero"
    and "list_all (\<lambda>c. isDigit c \<or> c = chDOT \<or> c = chMINUS) (numberToString x)"
  shows "encodeNumberCanonical x =
           (if chDOT \<in> set (numberToString x)
            then dropTrailingDot (stripFracZeros (numberToString x)) else numberToString x)"
  using assms no_exponent_chars [OF assms(3)]
  by (simp add: encodeNumberCanonical_def Let_def includesStr_single)

lemma encode_exponent:
  assumes "isFinite x" "x \<noteq> NegZero"
    and "list_ex (\<lambda>c. c = chLowerE \<or> c = chUpperE) (numberToString x)"
    and "matchExpForm (numberToString x) = Some (sg, ip, fr, es)"
    and "sg = [] \<or> sg = [chMINUS]"
    and "digits = ip @ (case fr of None \<Rightarrow> [] | Some f \<Rightarrow> f)"
    and "newPos = int (length ip) + parseInt es"
  shows "encodeNumberCanonical x =
     (if newPos \<le> 0 then
        (if dropWhile (\<lambda>c. c = chZERO) digits = [] then lit ''0''
         else finishNumber sg
                (chZERO # chDOT # replicate (nat (- newPos)) chZERO
                   @ dropWhile (\<lambda>c. c = chZERO) digits))
      else if int (length digits) \<le> newPos then
        finishNumber sg (digits @ replicate (nat (newPos - int (length digits))) chZERO)
      else finishNumber sg (take (nat newPos) digits @ chDOT # drop (nat newPos) digits))"
proof -
  have sign: "(if sg = lit ''-'' then lit ''-'' else []) = sg"
    using assms(5) by auto
  show ?thesis
    using assms(1-4)
    by (simp add: encodeNumberCanonical_def Let_def sign assms(6,7) repeat_zero
          del: lit_simps)
       (simp add: sign)
qed

lemma plain_chars_digits:
  "list_all isDigit t \<Longrightarrow> list_all (\<lambda>c. isDigit c \<or> c = chDOT \<or> c = chMINUS) t"
  by (auto simp: list_all_iff)

lemma list_all_take: "list_all P xs \<Longrightarrow> list_all P (take m xs)"
  by (auto simp: list_all_iff dest: in_set_takeD)

lemma list_all_drop: "list_all P xs \<Longrightarrow> list_all P (drop m xs)"
  by (auto simp: list_all_iff dest: in_set_dropD)

lemma drop_digits:
  assumes "list_all isDigit t" "last t \<noteq> chZERO" "m < length t"
  shows "drop m t \<noteq> []" "list_all isDigit (drop m t)" "last (drop m t) \<noteq> chZERO"
  using assms by (simp_all add: list_all_drop del: drop_map)

lemma take_digits:
  assumes "list_all isDigit t" "hd t \<noteq> chZERO" "0 < m" "t \<noteq> []"
  shows "list_all isDigit (take m t)" "take m t \<noteq> []" "hd (take m t) \<noteq> chZERO"
  using assms by (simp_all add: list_all_take del: take_map)

lemma encode_decimal:
  assumes wf: "wf_number (Decimal neg ds n)"
  shows "encodeNumberCanonical (Decimal neg ds n)
           = (if neg then [chMINUS] else []) @ spec_plainDigits ds n"
proof -
  let ?x = "Decimal neg ds n"
  let ?D = "map digitChar ds"
  let ?k = "int (length ds)"
  let ?sg = "if neg then [chMINUS] else []"
  note D = wf_digits [OF wf]
  have k1: "1 \<le> ?k" using D(2) by (cases ds) auto
  have fin: "isFinite ?x" "?x \<noteq> NegZero" by simp_all
  have sgp: "list_all (\<lambda>c. isDigit c \<or> c = chDOT \<or> c = chMINUS) ?sg" by simp
  have Dp: "list_all (\<lambda>c. isDigit c \<or> c = chDOT \<or> c = chMINUS) ?D"
    using D(1) by (rule plain_chars_digits)
  have sg_nodot: "chDOT \<notin> set ?sg" by simp
  have D_nodot: "chDOT \<notin> set ?D" using D(1) by (rule digits_no_dot)
  have zeros_digits: "list_all isDigit (replicate m chZERO)" for m
    by (simp add: list_all_iff)
  have zp: "list_all (\<lambda>c. isDigit c \<or> c = chDOT \<or> c = chMINUS) (replicate m chZERO)" for m
    by (rule plain_chars_digits) (rule zeros_digits)
  consider (A) "?k \<le> n" "n \<le> 21" | (B) "0 < n" "n \<le> 21" "n < ?k"
    | (C) "- 6 < n" "n \<le> 0" | (E) "21 < n \<or> n \<le> - 6"
    by linarith
  then show ?thesis
  proof cases
    case A
    have s: "numberToString ?x = ?sg @ ?D @ replicate (nat (n - ?k)) chZERO"
      using A by (simp add: positiveToString_def Let_def)
    have p: "list_all (\<lambda>c. isDigit c \<or> c = chDOT \<or> c = chMINUS) (numberToString ?x)"
      unfolding s using sgp Dp zp by simp
    have nd: "chDOT \<notin> set (numberToString ?x)"
      unfolding s using sg_nodot D_nodot by auto
    have "spec_plainDigits ds n = ?D @ replicate (nat (n - ?k)) chZERO"
      using A k1 by (simp add: spec_plainDigits_def Let_def)
    then show ?thesis
      using encode_plain [OF fin p] nd s by simp
  next
    case B
    let ?a = "take (nat n) ?D" and ?c = "drop (nat n) ?D"
    have s: "numberToString ?x = (?sg @ ?a) @ chDOT # ?c"
      using B by (simp add: positiveToString_def Let_def)
    have "nat n < length ?D" using B by simp
    note c = drop_digits [OF D(1) D(4) this]
    have a: "list_all isDigit ?a" using D(1) by (rule list_all_take)
    have p: "list_all (\<lambda>c. isDigit c \<or> c = chDOT \<or> c = chMINUS) (numberToString ?x)"
      unfolding s using a c(2) by (auto simp: list_all_iff)
    have pre: "chDOT \<notin> set (?sg @ ?a)" using digits_no_dot [OF a] by auto
    have "spec_plainDigits ds n = ?a @ chDOT # ?c"
      using B by (simp add: spec_plainDigits_def Let_def)
    then show ?thesis
      using encode_plain [OF fin p] fraction_kept [OF pre c] s by simp
  next
    case C
    let ?c = "replicate (nat (- n)) chZERO @ ?D"
    have s: "numberToString ?x = (?sg @ [chZERO]) @ chDOT # ?c"
      using C k1 by (simp add: positiveToString_def Let_def)
    have c: "?c \<noteq> []" "list_all isDigit ?c" "last ?c \<noteq> chZERO"
      using D zeros_digits by (auto simp: list_all_iff)
    have p: "list_all (\<lambda>c. isDigit c \<or> c = chDOT \<or> c = chMINUS) (numberToString ?x)"
      unfolding s using c(2) by (auto simp: list_all_iff)
    have pre: "chDOT \<notin> set (?sg @ [chZERO])" by auto
    have "spec_plainDigits ds n = chZERO # chDOT # ?c"
      using C by (simp add: spec_plainDigits_def Let_def)
    then show ?thesis
      using encode_plain [OF fin p] fraction_kept [OF pre c] s by simp
  next
    case E
    obtain d1 rest where dr: "?D = d1 # rest" using D(2) by (cases ?D) auto
    have d1: "isDigit d1" and rest: "list_all isDigit rest" using D(1) dr by auto
    let ?m = "nat \<bar>n - 1\<bar>"
    let ?sc = "if n - 1 < 0 then chMINUS else chPLUS"
    let ?ed = "natToString ?m"
    let ?fr = "if rest = [] then None else Some rest"
    let ?mid = "if rest = [] then [] else chDOT # rest"
    have kr: "?k = 1 \<longleftrightarrow> rest = []"
      using dr by (cases ds) auto
    have s: "numberToString ?x = ?sg @ d1 # ?mid @ chLowerE # ?sc # ?ed"
      using E k1 kr dr by (auto simp: positiveToString_def Let_def)
    have ex: "list_ex (\<lambda>c. c = chLowerE \<or> c = chUpperE) (numberToString ?x)"
      unfolding s by simp
    have m: "matchExpForm (numberToString ?x) = Some (?sg, [d1], ?fr, ?sc # ?ed)"
      unfolding s
      by (rule matchExpForm_eval) (use d1 rest natToString_digits [of ?m] in auto)
    have digits: "?D = [d1] @ (case ?fr of None \<Rightarrow> [] | Some f \<Rightarrow> f)"
      using dr by simp
    have np: "n = int (length [d1]) + parseInt (?sc # ?ed)"
      by (simp add: parseInt_signed)
    have dz: "dropWhile (\<lambda>c. c = chZERO) ?D = ?D"
      using D(3) dr by simp
    note enc = encode_exponent [OF fin ex m _ digits np]
    have sg: "?sg = [] \<or> ?sg = [chMINUS]" by simp
    show ?thesis
    proof (cases "n \<le> 0")
      case True
      have c: "list_all isDigit (replicate (nat (- n)) chZERO @ ?D)"
        "replicate (nat (- n)) chZERO @ ?D \<noteq> []"
        "last (replicate (nat (- n)) chZERO @ ?D) \<noteq> chZERO"
        using D zeros_digits by (auto simp: list_all_iff)
      have "spec_plainDigits ds n = chZERO # chDOT # replicate (nat (- n)) chZERO @ ?D"
        using True by (simp add: spec_plainDigits_def Let_def)
      then show ?thesis
        using enc [OF sg] True dz D(2) finishNumber_small [OF c, of ?sg] by simp
    next
      case False
      show ?thesis
      proof (cases "?k \<le> n")
        case True
        have c: "list_all isDigit (?D @ replicate (nat (n - ?k)) chZERO)"
          "?D @ replicate (nat (n - ?k)) chZERO \<noteq> []"
          "hd (?D @ replicate (nat (n - ?k)) chZERO) \<noteq> chZERO"
          using D zeros_digits by (auto simp: list_all_iff hd_append)
        have "spec_plainDigits ds n = ?D @ replicate (nat (n - ?k)) chZERO"
          using True False by (simp add: spec_plainDigits_def Let_def)
        then show ?thesis
          using enc [OF sg] True False finishNumber_integer [OF c, of ?sg] by simp
      next
        case nk: False
        let ?a = "take (nat n) ?D" and ?c = "drop (nat n) ?D"
        have "nat n < length ?D" using nk False by simp
        note c = drop_digits [OF D(1) D(4) this]
        have "0 < nat n" using False by simp
        note a = take_digits [OF D(1) D(3) this D(2)]
        have "spec_plainDigits ds n = ?a @ chDOT # ?c"
          using nk False by (simp add: spec_plainDigits_def Let_def)
        then show ?thesis
          using enc [OF sg] nk False finishNumber_point [OF a c(2) c(1) c(3), of ?sg] by simp
      qed
    qed
  qed
qed

lemma foldl_digits_acc:
  "foldl (\<lambda>a c. 10 * a + (unat c - 48)) acc s
     = acc * 10 ^ length s + foldl (\<lambda>a c. 10 * a + (unat c - 48)) 0 s"
proof (induction s arbitrary: acc)
  case Nil
  then show ?case by simp
next
  case (Cons c s)
  show ?case
    using Cons [of "10 * acc + (unat c - 48)"] Cons [of "unat c - 48"]
    by (simp add: algebra_simps)
qed

lemma digitsToNat_append:
  "digitsToNat (a @ b) = digitsToNat a * 10 ^ length b + digitsToNat b"
  unfolding digitsToNat_def foldl_append by (rule foldl_digits_acc)

lemma digitsToNat_zeros: "digitsToNat (replicate m chZERO) = 0"
  by (induction m) (simp_all add: digitsToNat_def replicate_app_Cons_same)

lemma digitsToNat_Cons_zero: "digitsToNat (chZERO # s) = digitsToNat s"
  by (simp add: digitsToNat_def)

lemma digitsToNat_map:
  "list_all (\<lambda>d. d < 10) ds \<Longrightarrow> digitsToNat (map digitChar ds) = digitsValue ds"
proof (induction ds rule: rev_induct)
  case Nil
  then show ?case by (simp add: digitsToNat_def digitsValue_def)
next
  case (snoc d ds)
  then show ?case by (simp add: digitsToNat_snoc digitsValue_def digitChar_unat)
qed

lemma powi_neg_nat:
  assumes "m = nat (- e)" "e \<le> 0"
  shows "(10::rat) powi e = 1 / 10 ^ m"
proof -
  have "e = - int m" using assms by simp
  then have "(10::rat) powi e = inverse (10 powi int m)" by (simp only: power_int_minus)
  then show ?thesis by (simp only: power_int_of_nat inverse_eq_divide)
qed

lemma digitsToNat_Nil: "digitsToNat [] = 0"
  by (simp add: digitsToNat_def)

lemma plainValue_decimal:
  assumes wf: "wf_number (Decimal neg ds n)"
  shows "plainValue ((if neg then [chMINUS] else []) @ spec_plainDigits ds n)
           = numberValue (Decimal neg ds n)"
proof -
  let ?D = "map digitChar ds"
  let ?k = "int (length ds)"
  let ?body = "spec_plainDigits ds n"
  let ?dv = "digitsValue ds"
  note D = wf_digits [OF wf]
  from wf have lt: "list_all (\<lambda>d. d < 10) ds" by simp
  have dvD: "digitsToNat ?D = ?dv" using lt by (rule digitsToNat_map)
  have k1: "1 \<le> ?k" using D(2) by (cases ds) auto
  obtain d1 rest where dr: "?D = d1 # rest" using D(2) by (cases ?D) auto
  have d1: "isDigit d1" using D(1) dr by simp
  have nd: "\<not> isDigit chDOT" by (simp add: isDigit_def)
  have zeros_digits: "list_all isDigit (replicate m chZERO)" for m
    by (simp add: list_all_iff)
  have body_hd: "?body \<noteq> [] \<and> isDigit (hd ?body)"
    using D(2) d1 dr by (auto simp: spec_plainDigits_def Let_def hd_append)
  then have hdm: "hd ?body \<noteq> chMINUS" using isDigit_not_special by blast
  have pv: "plainValue ((if neg then [chMINUS] else []) @ ?body)
        = (if neg then - 1 else 1)
            * (of_nat (digitsToNat (takeWhile isDigit ?body))
               + of_nat (digitsToNat (case dropWhile isDigit ?body of [] \<Rightarrow> []
                                      | c # cs \<Rightarrow> if c = chDOT then cs else []))
                 / 10 ^ length (case dropWhile isDigit ?body of [] \<Rightarrow> []
                                | c # cs \<Rightarrow> if c = chDOT then cs else []))"
    using body_hd hdm by (cases neg) (simp_all add: plainValue_def Let_def hd_append)
  consider (S) "n \<le> 0" | (I) "0 < n" "?k \<le> n" | (P) "0 < n" "n < ?k" by linarith
  then have "of_nat (digitsToNat (takeWhile isDigit ?body))
               + of_nat (digitsToNat (case dropWhile isDigit ?body of [] \<Rightarrow> []
                                      | c # cs \<Rightarrow> if c = chDOT then cs else []))
                 / 10 ^ length (case dropWhile isDigit ?body of [] \<Rightarrow> []
                                | c # cs \<Rightarrow> if c = chDOT then cs else [])
             = (of_nat ?dv :: rat) * 10 powi (n - ?k)"
  proof cases
    case S
    let ?m = "nat (- n)"
    have b: "?body = [chZERO] @ chDOT # (replicate ?m chZERO @ ?D)"
      using S by (simp add: spec_plainDigits_def Let_def)
    have t: "takeWhile isDigit ?body = [chZERO]" "dropWhile isDigit ?body = chDOT # (replicate ?m chZERO @ ?D)"
      unfolding b using takeWhile_digits [of "[chZERO]" chDOT] dropWhile_digits [of "[chZERO]" chDOT] nd
      by simp_all
    have v: "digitsToNat (replicate ?m chZERO @ ?D) = ?dv"
      by (simp add: digitsToNat_append digitsToNat_zeros dvD)
    have e: "(10::rat) powi (n - ?k) = 1 / 10 ^ (?m + length ds)"
      using S by (intro powi_neg_nat) auto
    show ?thesis
      unfolding t by (simp add: v e digitsToNat_Cons_zero digitsToNat_Nil)
  next
    case I
    let ?m = "nat (n - ?k)"
    have b: "?body = ?D @ replicate ?m chZERO"
      using I by (simp add: spec_plainDigits_def Let_def)
    have ad: "list_all isDigit ?body" unfolding b using D(1) zeros_digits by simp
    have t: "takeWhile isDigit ?body = ?body" "dropWhile isDigit ?body = []"
      using ad by (simp_all add: takeWhile_all_digits dropWhile_all_digits)
    have v: "digitsToNat ?body = ?dv * 10 ^ ?m"
      unfolding b by (simp add: digitsToNat_append digitsToNat_zeros dvD)
    have e: "(10::rat) powi (n - ?k) = 10 ^ ?m"
      using I by (simp add: power_int_def)
    show ?thesis
      unfolding t by (simp add: v e digitsToNat_Nil)
  next
    case P
    let ?a = "take (nat n) ?D" and ?c = "drop (nat n) ?D"
    have b: "?body = ?a @ chDOT # ?c"
      using P by (simp add: spec_plainDigits_def Let_def)
    have a: "list_all isDigit ?a" using D(1) by (rule list_all_take)
    have t: "takeWhile isDigit ?body = ?a" "dropWhile isDigit ?body = chDOT # ?c"
      unfolding b using takeWhile_digits [OF a nd] dropWhile_digits [OF a nd] by simp_all
    have lc: "length ?c = nat (?k - n)" using P by simp
    have "digitsToNat (?a @ ?c) = ?dv" using dvD by simp
    then have v: "digitsToNat ?a * 10 ^ nat (?k - n) + digitsToNat ?c = ?dv"
      using lc by (simp only: digitsToNat_append)
    have e: "(10::rat) powi (n - ?k) = 1 / 10 ^ nat (?k - n)"
      using P by (intro powi_neg_nat) auto
    have "(of_nat ?dv :: rat) = of_nat (digitsToNat ?a) * 10 ^ nat (?k - n) + of_nat (digitsToNat ?c)"
      unfolding v [symmetric] by simp
    then show ?thesis
      unfolding t e using lc by (simp add: field_simps)
  qed
  then show ?thesis unfolding pv by simp
qed

lemma plain_no_exponent:
  assumes "wf_number (Decimal neg ds n)"
  shows "list_all (\<lambda>c. isDigit c \<or> c = chDOT \<or> c = chMINUS)
           ((if neg then [chMINUS] else []) @ spec_plainDigits ds n)"
proof -
  note D = wf_digits [OF assms]
  have z: "list_all isDigit (replicate m chZERO)" for m by (simp add: list_all_iff)
  have "list_all (\<lambda>c. isDigit c \<or> c = chDOT \<or> c = chMINUS) (spec_plainDigits ds n)"
    unfolding spec_plainDigits_def Let_def
    using plain_chars_digits [OF D(1)] plain_chars_digits [OF z]
      plain_chars_digits [OF list_all_take [OF D(1)]] plain_chars_digits [OF list_all_drop [OF D(1)]]
    by (simp del: take_map drop_map add: isDigit_def)
  then show ?thesis by simp
qed

lemma plain_last:
  assumes "wf_number (Decimal neg ds n)" "chDOT \<in> set (spec_plainDigits ds n)"
  shows "last ((if neg then [chMINUS] else []) @ spec_plainDigits ds n) \<noteq> chZERO
       \<and> last ((if neg then [chMINUS] else []) @ spec_plainDigits ds n) \<noteq> chDOT"
proof -
  let ?D = "map digitChar ds"
  note D = wf_digits [OF assms(1)]
  have z: "chDOT \<notin> set (replicate m chZERO)" for m by simp
  have nk: "\<not> (0 < n \<and> int (length ds) \<le> n)"
    using assms(2) digits_no_dot [OF D(1)] by (auto simp: spec_plainDigits_def Let_def)
  have ne: "spec_plainDigits ds n \<noteq> []" using assms(2) by auto
  have "last (spec_plainDigits ds n) = last ?D"
  proof (cases "n \<le> 0")
    case True
    then show ?thesis using D(2) by (simp add: spec_plainDigits_def Let_def)
  next
    case False
    with nk have "nat n < length ?D" by simp
    then show ?thesis
      using False nk drop_digits(1) [OF D(1) D(4)]
      by (simp add: spec_plainDigits_def Let_def del: drop_map)
  qed
  moreover have "isDigit (last ?D)"
    using D(1) last_in_set [OF D(2)] unfolding list_all_iff by blast
  ultimately show ?thesis using D(4) ne isDigit_not_special by auto
qed

lemma plain_sign:
  assumes "wf_number (Decimal neg ds n)"
  shows "hd ((if neg then [chMINUS] else []) @ spec_plainDigits ds n) = chMINUS \<longleftrightarrow> neg"
proof -
  note D = wf_digits [OF assms]
  obtain d1 rest where dr: "map digitChar ds = d1 # rest" using D(2) by (cases "map digitChar ds") auto
  have "isDigit d1" using D(1) dr by simp
  then have "spec_plainDigits ds n \<noteq> [] \<and> isDigit (hd (spec_plainDigits ds n))"
    using dr by (auto simp: spec_plainDigits_def Let_def hd_append)
  then show ?thesis using isDigit_not_special by (cases neg) (auto simp: hd_append)
qed

lemma encode_examples:
  "encodeNumberCanonical (Decimal False [1] 22) = lit ''1000000000000000000000''"
  "encodeNumberCanonical (Decimal False [1, 5] (- 6)) = lit ''0.00000015''"
  "encodeNumberCanonical NegZero = lit ''0''"
  "encodeNumberCanonical (Decimal False [3, 1] 1) = lit ''3.1''"
  by code_simp+

text \<open>What \<open>String(n)\<close> prints for three numbers, in the model.\<close>

lemma native_examples:
  "numberToString (Decimal False [1] 22) = lit ''1e+21''"
  "numberToString (Decimal False [1, 5] (- 6)) = lit ''1.5e-7''"
  "numberToString (Decimal True [1, 2, 3, 4, 5] 3) = lit ''-123.45''"
  by code_simp+

text \<open>
  Claim C2. For every finite number, \<open>encodeNumberCanonical\<close> returns its plain decimal
  text (\<open>spec_plainDecimal\<close>): the digits with the point shifted by the exponent and
  padded with zeros, whether \<open>String(n)\<close> prints the number plainly or in scientific
  notation. The text has no exponent marker; when it has a decimal point it ends neither
  with a zero nor with the point; it starts with a minus sign exactly for a negative
  number; and the value it denotes is the value of the number. A finite double is
  positive or negative zero or a triple \<open>Decimal neg ds n\<close> that \<open>wf_number\<close> accepts. The
  four examples of the claim are part of the statement: 1e21 is \<open>Decimal False [1] 22\<close>,
  1.5e-7 is \<open>Decimal False [1, 5] (- 6)\<close> and 3.10 is \<open>Decimal False [3, 1] 1\<close>.
\<close>

theorem number_canonical:
  assumes "wf_number x" "isFinite x"
  shows "encodeNumberCanonical x = spec_plainDecimal x
    \<and> chLowerE \<notin> set (encodeNumberCanonical x) \<and> chUpperE \<notin> set (encodeNumberCanonical x)
    \<and> (chDOT \<in> set (encodeNumberCanonical x) \<longrightarrow>
         last (encodeNumberCanonical x) \<noteq> chZERO \<and> last (encodeNumberCanonical x) \<noteq> chDOT)
    \<and> (\<forall>neg ds n. x = Decimal neg ds n \<longrightarrow> (hd (encodeNumberCanonical x) = chMINUS \<longleftrightarrow> neg))
    \<and> plainValue (encodeNumberCanonical x) = numberValue x
    \<and> encodeNumberCanonical (Decimal False [1] 22) = lit ''1000000000000000000000''
    \<and> encodeNumberCanonical (Decimal False [1, 5] (- 6)) = lit ''0.00000015''
    \<and> encodeNumberCanonical NegZero = lit ''0''
    \<and> encodeNumberCanonical (Decimal False [3, 1] 1) = lit ''3.1''"
proof (cases x)
  case (Decimal neg ds n)
  then have wf: "wf_number (Decimal neg ds n)" using assms(1) by simp
  let ?t = "(if neg then [chMINUS] else []) @ spec_plainDigits ds n"
  have e: "encodeNumberCanonical x = ?t" unfolding Decimal using wf by (rule encode_decimal)
  have ne: "chLowerE \<notin> set ?t \<and> chUpperE \<notin> set ?t"
    using no_exponent_chars [OF plain_no_exponent [OF wf]] unfolding list_ex_iff by blast
  have tz: "chDOT \<in> set ?t \<longrightarrow> last ?t \<noteq> chZERO \<and> last ?t \<noteq> chDOT"
    using plain_last [OF wf] by (cases neg) auto
  show ?thesis
    unfolding e using ne tz plain_sign [OF wf] plainValue_decimal [OF wf] encode_examples Decimal
    by simp
next
  case PosZero
  then show ?thesis using encode_examples
    by (simp add: encodeNumberCanonical_def plainValue_def digitsToNat_def isDigit_def)
next
  case NegZero
  then show ?thesis using encode_examples
    by (simp add: encodeNumberCanonical_def plainValue_def digitsToNat_def isDigit_def)
qed (use assms in auto)

text \<open>The theorem at -1.25e24, which \<open>String\<close> prints as \<open>-1.25e+24\<close>.\<close>

theorem number_canonical_witness:
  "encodeNumberCanonical (Decimal True [1, 2, 5] 25) = lit ''-1250000000000000000000000''
   \<and> plainValue (encodeNumberCanonical (Decimal True [1, 2, 5] 25))
       = numberValue (Decimal True [1, 2, 5] 25)"
proof -
  let ?x = "Decimal True [1, 2, 5] 25"
  have w: "wf_number ?x" "isFinite ?x" by simp_all
  have s: "spec_plainDecimal ?x = lit ''-1250000000000000000000000''" by code_simp
  from number_canonical [OF w]
  have a: "encodeNumberCanonical ?x = spec_plainDecimal ?x"
    and b: "plainValue (encodeNumberCanonical ?x) = numberValue ?x" by blast+
  from a s have "encodeNumberCanonical ?x = lit ''-1250000000000000000000000''" by (rule trans)
  from this b show ?thesis by (rule conjI)
qed

end
